theory Spec2Isabelle
  imports Main "HOL-Library.Word"
begin

unbundle bit_operations_syntax

section \<open>Bytes, the host image and its geometry\<close>

text \<open>
  A byte is an 8-bit word. The image is the content of the host file that
  \<^verbatim>\<open>std::fstream\<close> opens: a finite sequence of bytes, addressed from 0. Every
  operation of a file block opens the image anew and drops the results of its seeks and
  transfers (\<^verbatim>\<open>(void)stream.seekp(...)\<close>); the model takes the image to exist and the
  device to store what it is given. The constructor for writing and \<open>setNext\<close> seek to
  the header of their block (\<open>m_offset\<close>, \<open>m_offset + 4\<close>) and are modelled for
  the blocks of a volume, whose headers lie in the image: their seek is taken to land. A
  reading operation finds nothing behind the end of the image, whether its seek lands or
  not. \<open>write\<close> seeks to \<open>m_offset + FILE_BLOCK_META + m_extraOffset\<close>, which the
  caller moves with \<open>setExtraOffset\<close>, and is modelled with the seek that fails.
\<close>

type_synonym byte = "8 word"
type_synonym image = "byte list"

text \<open>
  \<^verbatim>\<open>stream.seekp(pos); stream.write(bs, n)\<close> on a stream opened with
  \<^verbatim>\<open>in | out | binary\<close>: the bytes replace those at \<open>pos\<close>; a write that
  starts or ends behind the end of the file makes the file longer, the gap reads as zero.
  A write of no bytes leaves the file as it is.
\<close>

definition fstream_write_at :: "image \<Rightarrow> nat \<Rightarrow> byte list \<Rightarrow> image" where
  "fstream_write_at img pos bs =
     (if bs = [] then img
      else take pos img @ replicate (pos - length img) 0 @ bs @ drop (pos + length bs) img)"

text \<open>
  \<^verbatim>\<open>stream.seekg(pos); stream.read(buf, n)\<close>: the bytes that the host delivers,
  fewer than \<open>n\<close> when the file ends first.
\<close>

definition fstream_read_at :: "image \<Rightarrow> nat \<Rightarrow> nat \<Rightarrow> byte list" where
  "fstream_read_at img pos n = take n (drop pos img)"

text \<open>
  Modelled from the spec: \<^verbatim>\<open>DetailFileBlock.hpp\<close> (the constants
  \<^verbatim>\<open>detail::FILE_BLOCK_SIZE\<close> and \<^verbatim>\<open>detail::FILE_BLOCK_META\<close>) is missing
  from the sources. The spec fixes the header at 12 bytes and uses the block size
  \<open>B = 512\<close>, hence the payload capacity \<open>P = B - 12 = 500\<close>.
\<close>

definition FILE_BLOCK_SIZE :: nat where
  "FILE_BLOCK_SIZE = 512"

definition FILE_BLOCK_META :: nat where
  "FILE_BLOCK_META = 12"

text \<open>
  Modelled from the spec: the four conversion helpers of \<^verbatim>\<open>DetailBFS.hpp\<close> are
  missing from the sources. The spec stores \<open>bytesWritten\<close> as an unsigned 32-bit
  little-endian number in bytes 0..3 of a block and \<open>next\<close> as an unsigned 64-bit
  little-endian number in bytes 4..11.
\<close>

definition convertInt32ToInt4Array :: "32 word \<Rightarrow> byte list" where
  "convertInt32ToInt4Array v = map (\<lambda>i. ucast (drop_bit (8 * i) v)) [0..<4]"

definition convertInt4ArrayToInt32 :: "byte list \<Rightarrow> 32 word" where
  "convertInt4ArrayToInt32 array = foldr (\<lambda>b acc. ucast b OR push_bit 8 acc) array 0"

definition convertUInt64ToInt8Array :: "64 word \<Rightarrow> byte list" where
  "convertUInt64ToInt8Array v = map (\<lambda>i. ucast (drop_bit (8 * i) v)) [0..<8]"

definition convertInt8ArrayToInt64 :: "byte list \<Rightarrow> 64 word" where
  "convertInt8ArrayToInt64 array = foldr (\<lambda>b acc. ucast b OR push_bit 8 acc) array 0"

section \<open>The null byte transformer\<close>

text \<open>
  \<^verbatim>\<open>NullByteTransformer::doEncrypt\<close> and \<^verbatim>\<open>doDecrypt\<close> run the same loop
  \<^verbatim>\<open>for(long i(0); i < length; ++i) out[i] = in[i];\<close>. The buffers are lists, the
  output buffer is passed in and returned updated; \<open>length\<close> is a signed \<^verbatim>\<open>long\<close>.
\<close>

function copy_loop :: "nat \<Rightarrow> int \<Rightarrow> byte list \<Rightarrow> byte list \<Rightarrow> byte list" where
  "copy_loop i len inp out =
     (if int i < len then copy_loop (i + 1) len inp (out[i := inp ! i]) else out)"
  by pat_completeness auto
termination
  by (relation "measure (\<lambda>(i, len, inp, out). nat (len - int i))") auto

declare copy_loop.simps [simp del]

definition doEncrypt :: "byte list \<Rightarrow> byte list \<Rightarrow> int \<Rightarrow> int \<Rightarrow> byte list" where
  "doEncrypt inp out startPosition len = copy_loop 0 len inp out"

definition doDecrypt :: "byte list \<Rightarrow> byte list \<Rightarrow> int \<Rightarrow> int \<Rightarrow> byte list" where
  "doDecrypt inp out startPosition len = copy_loop 0 len inp out"

section \<open>The volume layout\<close>

text \<open>
  Modelled from the spec: \<^verbatim>\<open>detail::getOffsetOfFileBlock\<close> (\<^verbatim>\<open>DetailBFS.hpp\<close>) is
  missing from the sources. The spec puts block \<open>i\<close> at the image bytes
  \<open>[HDR + i * B, HDR + (i + 1) * B)\<close>, where \<open>HDR\<close> is \<open>48 + \<lceil>N / 8\<rceil>\<close> rounded
  up to the block size: 8 bytes of block count, 8 bytes of root index, 32 bytes of cipher
  parameters, then the bitmap.
\<close>

definition HDR :: "nat \<Rightarrow> nat" where
  "HDR N = ((48 + (N + 7) div 8 + FILE_BLOCK_SIZE - 1) div FILE_BLOCK_SIZE) * FILE_BLOCK_SIZE"

definition getOffsetOfFileBlock :: "64 word \<Rightarrow> 64 word \<Rightarrow> 64 word" where
  "getOffsetOfFileBlock index totalBlocks =
     of_nat (HDR (unat totalBlocks) + unat index * FILE_BLOCK_SIZE)"

text \<open>
  Modelled from the spec: \<^verbatim>\<open>detail::isBlockInUse\<close> and
  \<^verbatim>\<open>detail::updateVolumeBitmapWithOne\<close> (\<^verbatim>\<open>DetailBFS.hpp\<close>) are missing from the
  sources. The spec keeps one bit per block, 1 for a block in use, in the bytes that start
  at image offset 48, and updates a bit by reading, changing and writing back the one byte
  that holds it. The spec does not say which bit of its byte a block has; here block \<open>i\<close>
  has bit \<open>i mod 8\<close> of byte \<open>i div 8\<close>, counted from the least significant bit.
\<close>

definition isBlockInUse :: "64 word \<Rightarrow> 64 word \<Rightarrow> image \<Rightarrow> bool" where
  "isBlockInUse block blocks img =
     (case fstream_read_at img (48 + unat block div 8) 1 of
        [b] \<Rightarrow> bit b (unat block mod 8)
      | _ \<Rightarrow> False)"

definition updateVolumeBitmapWithOne :: "image \<Rightarrow> 64 word \<Rightarrow> 64 word \<Rightarrow> image" where
  "updateVolumeBitmapWithOne img blockIndex blocks =
     (case fstream_read_at img (48 + unat blockIndex div 8) 1 of
        [b] \<Rightarrow> fstream_write_at img (48 + unat blockIndex div 8)
                 [b OR push_bit (unat blockIndex mod 8) 1]
      | _ \<Rightarrow> img)"

section \<open>File blocks\<close>

text \<open>
  The fields of \<^verbatim>\<open>bfs::FileBlock\<close>. The image path is left out: the image itself is
  passed to every operation and returned by those that write to it.
\<close>

record FileBlock =
  m_totalBlocks :: "64 word"
  m_index :: "64 word"
  m_bytesWritten :: "32 word"
  m_initialBytesWritten :: "32 word"
  m_next :: "64 word"
  m_offset :: "64 word"
  m_extraOffset :: "64 word"

datatype error = AssertionFailed | NoSpace | Io | BadChain | ReadOnly | OverwriteInPlace

text \<open>The header of the block that starts at image position \<open>pos\<close>, as the reading
  constructor reads it.\<close>

definition headerBytesWritten :: "image \<Rightarrow> nat \<Rightarrow> 32 word" where
  "headerBytesWritten img pos = convertInt4ArrayToInt32 (fstream_read_at img pos 4)"

definition headerNext :: "image \<Rightarrow> nat \<Rightarrow> 64 word" where
  "headerNext img pos = convertInt8ArrayToInt64 (fstream_read_at img (pos + 4) 8)"

text \<open>
  The constructor for writing, \<^verbatim>\<open>FileBlock(imagePath, totalBlocks, index, next)\<close>: seek
  to the block, write four bytes of size 0, assert that \<open>next\<close> survives its
  serialisation, write the eight bytes of \<open>next\<close>. A failed \<^verbatim>\<open>assert\<close> aborts.
\<close>

definition FileBlock_new ::
  "image \<Rightarrow> 64 word \<Rightarrow> 64 word \<Rightarrow> 64 word \<Rightarrow> error + (FileBlock \<times> image)" where
  "FileBlock_new img totalBlocks index nextIndex =
     (let offset = getOffsetOfFileBlock index totalBlocks;
          sizeDat = convertInt32ToInt4Array 0;
          img1 = fstream_write_at img (unat offset) sizeDat;
          nextDat = convertUInt64ToInt8Array nextIndex
      in if nextIndex \<noteq> convertInt8ArrayToInt64 nextDat then Inl AssertionFailed
         else Inr (\<lparr>m_totalBlocks = totalBlocks, m_index = index, m_bytesWritten = 0,
                     m_initialBytesWritten = 0, m_next = nextIndex, m_offset = offset,
                     m_extraOffset = 0\<rparr>,
                   fstream_write_at img1 (unat offset + 4) nextDat))"

text \<open>
  The constructor for reading, \<^verbatim>\<open>FileBlock(imagePath, totalBlocks, index)\<close>. When the
  image ends before the twelve bytes of the header, the source reads arrays that were
  never filled: no result.
\<close>

definition FileBlock_open :: "image \<Rightarrow> 64 word \<Rightarrow> 64 word \<Rightarrow> FileBlock option" where
  "FileBlock_open img totalBlocks index =
     (let offset = getOffsetOfFileBlock index totalBlocks
      in if length (fstream_read_at img (unat offset) 4) < 4
            \<or> length (fstream_read_at img (unat offset + 4) 8) < 8 then None
         else Some \<lparr>m_totalBlocks = totalBlocks, m_index = index,
                     m_bytesWritten = headerBytesWritten img (unat offset),
                     m_initialBytesWritten = headerBytesWritten img (unat offset),
                     m_next = headerNext img (unat offset), m_offset = offset,
                     m_extraOffset = 0\<rparr>)"

definition setExtraOffset :: "FileBlock \<Rightarrow> 64 word \<Rightarrow> FileBlock" where
  "setExtraOffset fb extraOffset = fb\<lparr>m_extraOffset := extraOffset\<rparr>"

text \<open>
  \<^verbatim>\<open>FileBlock::read(buf, n)\<close>: the bytes the host delivers land at the front of
  \<open>buf\<close>. The method is \<^verbatim>\<open>const\<close>, but so is \<^verbatim>\<open>write\<close>, whose fields are
  \<^verbatim>\<open>mutable\<close>: the block and the image are passed through, as for \<open>write\<close>.
\<close>

definition FileBlock_read ::
  "FileBlock \<Rightarrow> image \<Rightarrow> byte list \<Rightarrow> nat \<Rightarrow> FileBlock \<times> image \<times> byte list \<times> nat" where
  "FileBlock_read fb img buf n =
     (let got = fstream_read_at img
                  (unat (m_offset fb + of_nat FILE_BLOCK_META + m_extraOffset fb)) n
      in (fb, img, got @ drop (length got) buf, n))"

text \<open>
  The stream of \<^verbatim>\<open>FileBlock::write\<close>: the image, the position, and whether the stream
  is good. A position of a \<^verbatim>\<open>std::fstream\<close> is a \<^verbatim>\<open>std::streamoff\<close>, a signed
  64-bit number, and so is the length of a host file: at most \<open>2^63 - 1\<close>.
  \<^verbatim>\<open>seekp\<close> of a \<^verbatim>\<open>uint64_t\<close> converts it: from \<open>2^63\<close> on it is a negative
  offset, the seek fails and sets \<^verbatim>\<open>failbit\<close>. A stream that is not good ignores every
  later \<^verbatim>\<open>seekp\<close> and \<^verbatim>\<open>write\<close>. Of a write that would make the file longer
  than \<open>2^63 - 1\<close> bytes the host keeps the bytes that fit, and the stream is no longer
  good. Below that length the host is taken to store every byte, also behind the end of
  the file.
\<close>

type_synonym write_stream = "image \<times> nat \<times> bool"

definition stream_seekp :: "write_stream \<Rightarrow> 64 word \<Rightarrow> write_stream" where
  "stream_seekp s pos =
     (case s of (img, p, good) \<Rightarrow>
        if good \<and> unat pos < 2 ^ 63 then (img, unat pos, True) else (img, p, False))"

definition stream_write :: "write_stream \<Rightarrow> byte list \<Rightarrow> write_stream" where
  "stream_write s bs =
     (case s of (img, p, good) \<Rightarrow>
        if good
        then (fstream_write_at img p (take (2 ^ 63 - 1 - p) bs), p + length bs,
              p + length bs < 2 ^ 63)
        else (img, p, False))"

text \<open>
  \<^verbatim>\<open>FileBlock::write(buf, n)\<close>, with \<open>n\<close> the length of \<open>buf\<close>: the stream
  seeks to \<open>m_offset + FILE_BLOCK_META + m_extraOffset\<close> (a sum of \<^verbatim>\<open>uint64_t\<close>) and
  writes the payload, then \<^verbatim>\<open>m_bytesWritten += uint32_t(n)\<close>, the stream seeks to
  \<open>m_offset\<close> and writes the four size bytes; the eight bytes of \<open>next\<close> follow
  them when the condition holds. The fields of the object change whether or not the
  stream is good.
\<close>

definition FileBlock_write ::
  "FileBlock \<Rightarrow> image \<Rightarrow> byte list \<Rightarrow> FileBlock \<times> image \<times> nat" where
  "FileBlock_write fb img buf =
     (let n = length buf;
          s1 = stream_write
                 (stream_seekp (img, 0, True)
                    (m_offset fb + of_nat FILE_BLOCK_META + m_extraOffset fb)) buf;
          fb1 = fb\<lparr>m_bytesWritten := m_bytesWritten fb + of_nat n\<rparr>;
          s2 = stream_write (stream_seekp s1 (m_offset fb))
                 (convertInt32ToInt4Array (m_bytesWritten fb1))
      in if n < FILE_BLOCK_SIZE - FILE_BLOCK_META \<or> 0 < m_extraOffset fb
         then (fb1\<lparr>m_next := m_index fb\<rparr>,
               fst (stream_write s2 (convertUInt64ToInt8Array (m_index fb))), n)
         else (fb1, fst s2, n))"

definition getDataBytesWritten :: "FileBlock \<Rightarrow> 32 word" where
  "getDataBytesWritten fb = m_bytesWritten fb"

definition getInitialDataBytesWritten :: "FileBlock \<Rightarrow> 32 word" where
  "getInitialDataBytesWritten fb = m_initialBytesWritten fb"

definition getNextIndex :: "FileBlock \<Rightarrow> 64 word" where
  "getNextIndex fb = m_next fb"

definition getIndex :: "FileBlock \<Rightarrow> 64 word" where
  "getIndex fb = m_index fb"

definition setNext :: "FileBlock \<Rightarrow> image \<Rightarrow> 64 word \<Rightarrow> FileBlock \<times> image" where
  "setNext fb img nextIndex =
     (fb\<lparr>m_next := nextIndex\<rparr>,
      fstream_write_at img (unat (m_offset fb + 4)) (convertUInt64ToInt8Array nextIndex))"

definition registerBlockWithVolumeBitmap :: "FileBlock \<Rightarrow> image \<Rightarrow> image" where
  "registerBlockWithVolumeBitmap fb img =
     updateVolumeBitmapWithOne img (m_index fb) (m_totalBlocks fb)"

section \<open>The container image stream\<close>

text \<open>
  The host stream \<^verbatim>\<open>m_stream\<close>, a \<^verbatim>\<open>std::fstream\<close> that stays open:
  \<^item> \<open>content\<close>, the bytes of the file on the device;
  \<^item> \<open>fpos\<close>, the position of its file buffer: there is one, which reads, writes and
    seeks (\<^verbatim>\<open>seekg\<close> as well as \<^verbatim>\<open>seekp\<close>) all move;
  \<^item> \<open>pending\<close>, the bytes that were written and that the buffer still holds; on the
    device they belong in front of the position;
  \<^item> \<open>takes\<close>, the policy of the library: whether a buffer that holds \<open>p\<close> bytes takes
    a write of \<open>n\<close> more, or hands all of them to the device;
  \<^item> the state bits \<^verbatim>\<open>badbit\<close> and \<^verbatim>\<open>failbit\<close> (\<^verbatim>\<open>eofbit\<close>, which a read sets
    together with \<^verbatim>\<open>failbit\<close>, is left out);
  \<^item> \<open>io_error\<close>, the environment: the device refuses the transfers it is asked for.

  \<open>on_host\<close> is the file once the buffer is written out, \<open>fstream_sync\<close> writes it
  out on a device that works.
\<close>

record fstream =
  content :: image
  fpos :: nat
  pending :: "byte list"
  takes :: "nat \<Rightarrow> nat \<Rightarrow> bool"
  badbit :: bool
  failbit :: bool
  io_error :: bool

definition on_host :: "fstream \<Rightarrow> image" where
  "on_host s = fstream_write_at (content s) (fpos s - length (pending s)) (pending s)"

definition fstream_sync :: "fstream \<Rightarrow> fstream" where
  "fstream_sync s = s\<lparr>content := on_host s, pending := []\<rparr>"

text \<open>
  \<^verbatim>\<open>m_stream.read(buf, n)\<close>. A stream that is not good transfers nothing and sets
  \<^verbatim>\<open>failbit\<close>. A buffer that holds written bytes is written out first; when the device
  refuses them, nothing is read. A device that refuses the read sets \<^verbatim>\<open>badbit\<close>; the
  model has no read-ahead, every read of at least one byte asks the device. A read that
  meets the end of the file delivers what is there and sets \<^verbatim>\<open>failbit\<close>.
\<close>

definition fstream_read :: "fstream \<Rightarrow> nat \<Rightarrow> fstream \<times> byte list" where
  "fstream_read s n =
     (if badbit s \<or> failbit s then (s\<lparr>failbit := True\<rparr>, [])
      else if pending s \<noteq> [] \<and> io_error s then (s\<lparr>failbit := 0 < n\<rparr>, [])
      else if io_error s \<and> 0 < n then (s\<lparr>badbit := True\<rparr>, [])
      else let got = fstream_read_at (on_host s) (fpos s) n
           in ((fstream_sync s)\<lparr>fpos := fpos s + length got, failbit := length got < n\<rparr>, got))"

text \<open>
  \<^verbatim>\<open>m_stream.write(bs, n)\<close>. A stream that is not good transfers nothing and sets
  \<^verbatim>\<open>failbit\<close>. A write that the buffer takes does not reach the device: the stream stays
  good, whatever the device would do. Otherwise the buffer and the bytes go to the device,
  which sets \<^verbatim>\<open>badbit\<close> when it refuses them.
\<close>

definition fstream_write :: "fstream \<Rightarrow> byte list \<Rightarrow> fstream" where
  "fstream_write s bs =
     (if badbit s \<or> failbit s then s\<lparr>failbit := True\<rparr>
      else if takes s (length (pending s)) (length bs)
      then s\<lparr>pending := pending s @ bs, fpos := fpos s + length bs\<rparr>
      else if io_error s then s\<lparr>badbit := True\<rparr>
      else fstream_sync (s\<lparr>pending := pending s @ bs, fpos := fpos s + length bs\<rparr>))"

text \<open>
  \<^verbatim>\<open>m_stream.flush()\<close>: the buffer is written out; a device that refuses it sets
  \<^verbatim>\<open>badbit\<close>.
\<close>

definition fstream_flush :: "fstream \<Rightarrow> fstream" where
  "fstream_flush s =
     (if badbit s \<or> failbit s then s\<lparr>failbit := True\<rparr>
      else if pending s = [] then s
      else if io_error s then s\<lparr>badbit := True\<rparr>
      else fstream_sync s)"

text \<open>
  \<^verbatim>\<open>m_stream.seekg(pos)\<close> and \<^verbatim>\<open>m_stream.seekp(pos)\<close> move the one position of the
  file buffer. A stream that is not good does not seek. The buffer is written out first;
  when the device refuses it, and when the position is negative, the seek fails and sets
  \<^verbatim>\<open>failbit\<close>.
\<close>

definition fstream_seek :: "fstream \<Rightarrow> int \<Rightarrow> fstream" where
  "fstream_seek s pos =
     (if badbit s \<or> failbit s then s\<lparr>failbit := True\<rparr>
      else if pos < 0 \<or> (pending s \<noteq> [] \<and> io_error s) then s\<lparr>failbit := True\<rparr>
      else (fstream_sync s)\<lparr>fpos := nat pos\<rparr>)"

text \<open>
  The byte transformer of the stream is a capability: two functions from the input
  buffer, the output buffer, the start position and the length to the output buffer.
  \<^verbatim>\<open>IByteTransformer\<close>, whose \<^verbatim>\<open>encrypt\<close> and \<^verbatim>\<open>decrypt\<close> hand over to
  \<^verbatim>\<open>doEncrypt\<close> and \<^verbatim>\<open>doDecrypt\<close>, is not among the sources.
\<close>

record ByteTransformer =
  encrypt :: "byte list \<Rightarrow> byte list \<Rightarrow> int \<Rightarrow> int \<Rightarrow> byte list"
  decrypt :: "byte list \<Rightarrow> byte list \<Rightarrow> int \<Rightarrow> int \<Rightarrow> byte list"

definition NullByteTransformer :: ByteTransformer where
  "NullByteTransformer = \<lparr>encrypt = doEncrypt, decrypt = doDecrypt\<rparr>"

record ContainerImageStream =
  m_stream :: fstream
  m_byteTransformer :: ByteTransformer
  m_gpos :: int
  m_ppos :: int

text \<open>
  \<^verbatim>\<open>ContainerImageStream::read(buf, n)\<close>: the host fills the front of a vector of
  \<open>n\<close> zero bytes; on \<^verbatim>\<open>bad()\<close> the position becomes -1 and \<open>buf\<close> is left
  alone, otherwise the position advances and the vector is decrypted into \<open>buf\<close>.
\<close>

definition ContainerImageStream_read ::
  "ContainerImageStream \<Rightarrow> byte list \<Rightarrow> nat \<Rightarrow> ContainerImageStream \<times> byte list" where
  "ContainerImageStream_read cis buf n =
     (let start = m_gpos cis;
          (s, got) = fstream_read (m_stream cis) n;
          inb = got @ replicate (n - length got) 0
      in if badbit s then (cis\<lparr>m_stream := s, m_gpos := - 1\<rparr>, buf)
         else (cis\<lparr>m_stream := s, m_gpos := m_gpos cis + int n\<rparr>,
               decrypt (m_byteTransformer cis) inb buf start (int n)))"

text \<open>
  \<^verbatim>\<open>ContainerImageStream::write(buf, n)\<close>: \<open>buf\<close> is encrypted into a vector of
  \<open>n\<close> bytes, whose \<open>n\<close> bytes go to the host; on \<^verbatim>\<open>bad()\<close> the position
  becomes -1, otherwise it advances.
\<close>

definition ContainerImageStream_write ::
  "ContainerImageStream \<Rightarrow> byte list \<Rightarrow> nat \<Rightarrow> ContainerImageStream" where
  "ContainerImageStream_write cis buf n =
     (let start = m_ppos cis;
          out = encrypt (m_byteTransformer cis) buf (replicate n 0) start (int n);
          s = fstream_write (m_stream cis) (take n out)
      in if badbit s then cis\<lparr>m_stream := s, m_ppos := - 1\<rparr>
         else cis\<lparr>m_stream := s, m_ppos := m_ppos cis + int n\<rparr>)"

text \<open>
  \<^verbatim>\<open>ContainerImageStream::seekg(pos)\<close> and \<^verbatim>\<open>seekp(pos)\<close>: the host seeks; on
  \<^verbatim>\<open>bad()\<close> the position becomes -1, otherwise it is \<open>pos\<close>.
  \<^verbatim>\<open>ContainerImageStream::flush()\<close> flushes the host stream.
\<close>

definition ContainerImageStream_seekg :: "ContainerImageStream \<Rightarrow> int \<Rightarrow> ContainerImageStream" where
  "ContainerImageStream_seekg cis pos =
     (let s = fstream_seek (m_stream cis) pos
      in if badbit s then cis\<lparr>m_stream := s, m_gpos := - 1\<rparr>
         else cis\<lparr>m_stream := s, m_gpos := pos\<rparr>)"

definition ContainerImageStream_seekp :: "ContainerImageStream \<Rightarrow> int \<Rightarrow> ContainerImageStream" where
  "ContainerImageStream_seekp cis pos =
     (let s = fstream_seek (m_stream cis) pos
      in if badbit s then cis\<lparr>m_stream := s, m_ppos := - 1\<rparr>
         else cis\<lparr>m_stream := s, m_ppos := pos\<rparr>)"

definition ContainerImageStream_flush :: "ContainerImageStream \<Rightarrow> ContainerImageStream" where
  "ContainerImageStream_flush cis = cis\<lparr>m_stream := fstream_flush (m_stream cis)\<rparr>"

text \<open>
  An example of a byte transformer whose transformation of a byte depends on the offset of
  the byte, which is what the spec asks of a cipher: the byte at offset \<open>o\<close> is shifted
  by \<open>o\<close>, and shifted back. The stream takes any transformer; the ciphers of the
  repository are not among the sources.
\<close>

definition shiftEncrypt :: "byte list \<Rightarrow> byte list \<Rightarrow> int \<Rightarrow> int \<Rightarrow> byte list" where
  "shiftEncrypt inp out startPosition len =
     map (\<lambda>i. inp ! i + of_int (startPosition + int i)) [0..<nat len] @ drop (nat len) out"

definition shiftDecrypt :: "byte list \<Rightarrow> byte list \<Rightarrow> int \<Rightarrow> int \<Rightarrow> byte list" where
  "shiftDecrypt inp out startPosition len =
     map (\<lambda>i. inp ! i - of_int (startPosition + int i)) [0..<nat len] @ drop (nat len) out"

definition ShiftByteTransformer :: ByteTransformer where
  "ShiftByteTransformer = \<lparr>encrypt = shiftEncrypt, decrypt = shiftDecrypt\<rparr>"

section \<open>Chains of file blocks\<close>

text \<open>The payload capacity of a block, \<open>P = B - 12\<close>.\<close>

definition payloadCapacity :: nat where
  "payloadCapacity = FILE_BLOCK_SIZE - FILE_BLOCK_META"

text \<open>
  The steps by which a file grows. \<^verbatim>\<open>FileEntry.cpp\<close>, which makes them, is not among
  the sources; the calls are those of the spec's file entry. A chain is the list of the
  block objects of a file, in order, with the image they live in.
  \<^item> \<open>writeLast\<close>: position the last block (\<^verbatim>\<open>setExtraOffset\<close>) and write to it;
  \<^item> \<open>newBlock\<close>: make block \<open>k\<close> with the constructor for writing, its \<open>next\<close>
    being its own index, and register it with the volume bitmap;
  \<^item> \<open>linkNew\<close>: \<^verbatim>\<open>setNext\<close> of the last block to the new block, which joins the
    chain.
\<close>

definition writeLast ::
  "64 word \<Rightarrow> byte list \<Rightarrow> FileBlock list \<times> image \<Rightarrow> FileBlock list \<times> image" where
  "writeLast extraOffset buf st =
     (case st of (bs, img) \<Rightarrow>
        (case FileBlock_write (setExtraOffset (last bs) extraOffset) img buf of
           (b, img1, n) \<Rightarrow> (butlast bs @ [b], img1)))"

definition linkNew :: "FileBlock \<Rightarrow> FileBlock list \<times> image \<Rightarrow> FileBlock list \<times> image" where
  "linkNew nb st =
     (case st of (bs, img) \<Rightarrow>
        (case setNext (last bs) img (m_index nb) of
           (b, img1) \<Rightarrow> (butlast bs @ [b, nb], img1)))"

definition newBlock :: "image \<Rightarrow> 64 word \<Rightarrow> 64 word \<Rightarrow> error + (FileBlock \<times> image)" where
  "newBlock img N k =
     (case FileBlock_new img N k k of
        Inl e \<Rightarrow> Inl e
      | Inr (nb, img1) \<Rightarrow> Inr (nb, registerBlockWithVolumeBitmap nb img1))"

text \<open>
  A sequence of such steps: a block write to the last block that stays within its payload,
  or the link of a new block whose index is below \<open>N\<close> and not yet in the chain.
  A step outside these bounds has no result.
\<close>

datatype chain_op = BlockWrite "64 word" "byte list" | LinkNewBlock "64 word"

fun apply_op :: "64 word \<Rightarrow> FileBlock list \<times> image \<Rightarrow> chain_op \<Rightarrow> (FileBlock list \<times> image) option" where
  "apply_op N (bs, img) (BlockWrite extraOffset buf) =
     (if bs \<noteq> [] \<and> unat extraOffset + length buf \<le> payloadCapacity
      then Some (writeLast extraOffset buf (bs, img)) else None)"
| "apply_op N (bs, img) (LinkNewBlock k) =
     (if bs \<noteq> [] \<and> unat k < unat N \<and> k \<notin> set (map m_index bs)
      then (case newBlock img N k of
              Inl e \<Rightarrow> None
            | Inr (nb, img1) \<Rightarrow> Some (linkNew nb (bs, img1)))
      else None)"

fun run_ops :: "64 word \<Rightarrow> FileBlock list \<times> image \<Rightarrow> chain_op list \<Rightarrow> (FileBlock list \<times> image) option" where
  "run_ops N st [] = Some st"
| "run_ops N st (x # xs) = (case apply_op N st x of None \<Rightarrow> None | Some st1 \<Rightarrow> run_ops N st1 xs)"

definition startChain :: "image \<Rightarrow> 64 word \<Rightarrow> 64 word \<Rightarrow> (FileBlock list \<times> image) option" where
  "startChain img N k =
     (if unat k < unat N
      then (case newBlock img N k of Inl e \<Rightarrow> None | Inr (nb, img1) \<Rightarrow> Some ([nb], img1))
      else None)"

text \<open>The links of a chain: every block but the last points to its successor, the last
  points to itself.\<close>

fun linked :: "FileBlock list \<Rightarrow> bool" where
  "linked [] = False"
| "linked [b] = (m_next b = m_index b)"
| "linked (b # c # bs) = (m_next b = m_index c \<and> linked (c # bs))"

section \<open>The file entry\<close>

text \<open>
  Modelled from the spec: the bitmap's \<open>firstFree\<close> (\<^verbatim>\<open>DetailBFS.hpp\<close> is missing from
  the sources) returns the smallest index whose bit is 0, and fails with \<open>NoSpace\<close>
  when every bit is 1.
\<close>

definition firstFree :: "image \<Rightarrow> 64 word \<Rightarrow> 64 word option" where
  "firstFree img N =
     map_option of_nat (find (\<lambda>i. \<not> isBlockInUse (of_nat i) N img) [0..<unat N])"

text \<open>
  Modelled from the spec: a block is created on first allocation: the bitmap bit is set
  and the header is written with \<open>bytesWritten = 0\<close> and \<open>next = self\<close>.
\<close>

definition allocateBlock :: "image \<Rightarrow> 64 word \<Rightarrow> error + (FileBlock \<times> image)" where
  "allocateBlock img N =
     (case firstFree img N of None \<Rightarrow> Inl NoSpace | Some k \<Rightarrow> newBlock img N k)"

text \<open>
  Modelled from the spec: the pure append of the file entry's \<open>write\<close>
  (\<^verbatim>\<open>FileEntry.cpp\<close> is missing from the sources). The spec: fill the current last block
  up to \<open>P\<close> (incrementing its \<open>bytesWritten\<close>); when it fills, allocate a new block
  via the bitmap's \<open>firstFree\<close>, set the old block's \<open>next\<close> to the new index, append
  the new block to the chain, and continue.
\<close>

function appendLoop ::
  "64 word \<Rightarrow> FileBlock list \<times> image \<Rightarrow> byte list \<Rightarrow> error + (FileBlock list \<times> image)" where
  "appendLoop N st buf =
     (if buf = [] then Inr st
      else let room = payloadCapacity - unat (m_bytesWritten (last (fst st)));
               st1 = writeLast (ucast (m_bytesWritten (last (fst st)))) (take room buf) st
           in if unat (m_bytesWritten (last (fst st1))) < payloadCapacity then Inr st1
              else (case allocateBlock (snd st1) N of
                      Inl e \<Rightarrow> Inl e
                    | Inr (nb, img2) \<Rightarrow> appendLoop N (linkNew nb (fst st1, img2)) (drop room buf)))"
  by pat_completeness auto
termination
proof (relation "measure (\<lambda>(N, st, buf). 2 * length buf
          + (if payloadCapacity \<le> unat (m_bytesWritten (last (fst st))) then 1 else 0))",
       goal_cases)
  case 1
  then show ?case by simp
next
  case (2 N st buf room st1 x2 nb img2)
  have nb: "m_bytesWritten nb = 0"
    using 2(5,6) by (auto simp add: allocateBlock_def newBlock_def FileBlock_new_def Let_def
        split: option.splits if_splits)
  have l: "last (fst (linkNew nb (fst st1, img2))) = nb"
    by (simp add: linkNew_def setNext_def)
  have p: "0 < payloadCapacity"
    by (simp add: payloadCapacity_def FILE_BLOCK_SIZE_def FILE_BLOCK_META_def)
  show ?case
  proof (cases "room = 0")
    case True
    then show ?thesis using 2(2) nb l p by simp
  next
    case False
    then have "length (drop room buf) < length buf" using 2(1) by simp
    then show ?thesis using nb l p by simp
  qed
qed


declare appendLoop.simps [simp del]

text \<open>
  Modelled from the spec: the file entry (\<^verbatim>\<open>FileEntry.cpp\<close>, \<^verbatim>\<open>TeaSafeFile.cpp\<close> and
  \<^verbatim>\<open>OpenDisposition.hpp\<close> are missing from the sources; \<^verbatim>\<open>TeaSafeFile.hpp\<close> declares
  the fields and the methods). The state of an entry: the block count of the volume, the
  file size, the block objects of the chain, the start block, the disposition and the
  stream position. The four dispositions of the spec are \<open>Read\<close>, \<open>Append\<close>,
  \<open>AppendOverwrite\<close> and \<open>CreateNew\<close>.
\<close>

datatype OpenDisposition = Read | Append | AppendOverwrite | CreateNew

record TeaSafeFile =
  m_blocks :: "64 word"
  m_fileSize :: nat
  m_fileBlocks :: "FileBlock list"
  m_startVolumeBlock :: "64 word"
  m_openDisposition :: OpenDisposition
  m_pos :: nat

text \<open>
  Modelled from the spec: opening with CreateNew allocates \<open>b\<^sub>0\<close> via the bitmap's
  \<open>firstFree\<close>; the file size is 0, the chain is \<open>[b\<^sub>0]\<close>, the position is 0.
\<close>

definition TeaSafeFile_create :: "image \<Rightarrow> 64 word \<Rightarrow> error + (TeaSafeFile \<times> image)" where
  "TeaSafeFile_create img N =
     (case allocateBlock img N of
        Inl e \<Rightarrow> Inl e
      | Inr (b, img1) \<Rightarrow>
          Inr (\<lparr>m_blocks = N, m_fileSize = 0, m_fileBlocks = [b],
                 m_startVolumeBlock = m_index b, m_openDisposition = CreateNew, m_pos = 0\<rparr>, img1))"

text \<open>
  Modelled from the spec: \<open>write\<close>. Writes are rejected in \<open>Read\<close>. At
  \<open>pos = fileSize\<close> the write is the pure append, after which \<open>fileSize\<close> and
  \<open>pos\<close> have grown by the bytes written. The other sub-mode of the spec, the
  overwrite in place at \<open>pos < fileSize\<close>, is left out of this model: no claim is about
  it, and the result \<open>OverwriteInPlace\<close> marks the place.
\<close>

definition TeaSafeFile_write ::
  "TeaSafeFile \<Rightarrow> image \<Rightarrow> byte list \<Rightarrow> error + (TeaSafeFile \<times> image \<times> nat)" where
  "TeaSafeFile_write f img buf =
     (if m_openDisposition f = Read then Inl ReadOnly
      else if m_pos f < m_fileSize f then Inl OverwriteInPlace
      else (case appendLoop (m_blocks f) (m_fileBlocks f, img) buf of
              Inl e \<Rightarrow> Inl e
            | Inr (bs, img1) \<Rightarrow>
                Inr (f\<lparr>m_fileBlocks := bs, m_fileSize := m_fileSize f + length buf,
                        m_pos := m_pos f + length buf\<rparr>, img1, length buf)))"

text \<open>
  Modelled from the spec: \<open>flush\<close> forces the stream to the host. In this model every
  write reaches the image at once, so \<open>flush\<close> changes nothing.
\<close>

definition TeaSafeFile_flush :: "image \<Rightarrow> image" where
  "TeaSafeFile_flush img = img"

text \<open>
  Modelled from the spec: opening an existing file walks the chain from the start block,
  reading each block's header and appending the block to the list, until
  \<open>next = self\<close>; a walk of more than \<open>N\<close> hops is a \<open>BadChain\<close>; the file size is
  the sum of the \<open>bytesWritten\<close>; the position is 0 for \<open>Read\<close> and the file size
  otherwise. A header that the image does not hold is an \<open>Io\<close> error.
\<close>

fun walkChain :: "nat \<Rightarrow> image \<Rightarrow> 64 word \<Rightarrow> 64 word \<Rightarrow> error + FileBlock list" where
  "walkChain 0 img N i = Inl BadChain"
| "walkChain (Suc hops) img N i =
     (case FileBlock_open img N i of
        None \<Rightarrow> Inl Io
      | Some b \<Rightarrow>
          if m_next b = i then Inr [b]
          else (case walkChain hops img N (m_next b) of
                  Inl e \<Rightarrow> Inl e
                | Inr bs \<Rightarrow> Inr (b # bs)))"

definition TeaSafeFile_open ::
  "image \<Rightarrow> 64 word \<Rightarrow> 64 word \<Rightarrow> OpenDisposition \<Rightarrow> error + TeaSafeFile" where
  "TeaSafeFile_open img N startBlock disposition =
     (case walkChain (unat N) img N startBlock of
        Inl e \<Rightarrow> Inl e
      | Inr bs \<Rightarrow>
          Inr \<lparr>m_blocks = N, m_fileSize = sum_list (map (\<lambda>b. unat (m_bytesWritten b)) bs),
                m_fileBlocks = bs, m_startVolumeBlock = startBlock,
                m_openDisposition = disposition,
                m_pos = (if disposition = Read then 0
                         else sum_list (map (\<lambda>b. unat (m_bytesWritten b)) bs))\<rparr>)"

text \<open>
  Modelled from the spec: \<open>read(buf, n)\<close> returns \<open>min(n, fileSize - pos)\<close> bytes: for
  each block in turn it reads \<open>min(remaining, P - extraOffset)\<close> bytes, with
  \<open>extraOffset\<close> zero after the first block, and advances \<open>pos\<close>. The first block is
  the block \<open>pos / P\<close> if \<open>pos < fileSize\<close>, else the last block.
\<close>

fun readBlocks :: "FileBlock list \<Rightarrow> image \<Rightarrow> nat \<Rightarrow> nat \<Rightarrow> byte list" where
  "readBlocks [] img extraOffset remaining = []"
| "readBlocks (b # bs) img extraOffset remaining =
     (if remaining = 0 then []
      else let n = min remaining (payloadCapacity - extraOffset)
           in (case FileBlock_read (setExtraOffset b (of_nat extraOffset)) img (replicate n 0) n of
                 (b1, img1, buf, r) \<Rightarrow> take r buf @ readBlocks bs img 0 (remaining - r)))"

definition TeaSafeFile_read :: "TeaSafeFile \<Rightarrow> image \<Rightarrow> nat \<Rightarrow> TeaSafeFile \<times> byte list" where
  "TeaSafeFile_read f img n =
     (let count = min n (m_fileSize f - m_pos f);
          j = (if m_pos f < m_fileSize f then m_pos f div payloadCapacity
               else length (m_fileBlocks f) - 1);
          extraOffset = m_pos f - j * payloadCapacity
      in (f\<lparr>m_pos := m_pos f + count\<rparr>,
          readBlocks (drop j (m_fileBlocks f)) img extraOffset count))"

text \<open>
  \<^verbatim>\<open>FileEntryTest::testBigWriteFollowedByRead\<close>, for any image, block count and data:
  create an entry, write the data, flush; open an entry on the start block for reading and
  read \<open>fileSize\<close> bytes. The result is the file size of the second entry and the bytes
  it read.
\<close>

definition testBigWriteFollowedByRead ::
  "image \<Rightarrow> 64 word \<Rightarrow> byte list \<Rightarrow> error + (nat \<times> byte list)" where
  "testBigWriteFollowedByRead img blocks testData =
     (case TeaSafeFile_create img blocks of
        Inl e \<Rightarrow> Inl e
      | Inr (entry, img1) \<Rightarrow>
          (case TeaSafeFile_write entry img1 testData of
             Inl e \<Rightarrow> Inl e
           | Inr (entry1, img2, n) \<Rightarrow>
               (case TeaSafeFile_open (TeaSafeFile_flush img2) blocks
                       (m_startVolumeBlock entry1) Read of
                  Inl e \<Rightarrow> Inl e
                | Inr entry2 \<Rightarrow>
                    Inr (m_fileSize entry2,
                         snd (TeaSafeFile_read entry2 (TeaSafeFile_flush img2)
                                (m_fileSize entry2))))))"

text \<open>The number of blocks whose bit in the bitmap is 0.\<close>

definition freeBlocks :: "image \<Rightarrow> 64 word \<Rightarrow> nat" where
  "freeBlocks img N = length (filter (\<lambda>i. \<not> isBlockInUse (of_nat i) N img) [0..<unat N])"


section \<open>Well-formed chains\<close>

text \<open>
  The image holds all \<open>N\<close> blocks and is a host file, whose length is a
  \<^verbatim>\<open>std::streamoff\<close>; a block object belongs to the volume; the header on disk agrees
  with the object; the chain is a list of distinct, linked blocks.
\<close>

definition image_ok :: "64 word \<Rightarrow> image \<Rightarrow> bool" where
  "image_ok N img =
     (HDR (unat N) + unat N * FILE_BLOCK_SIZE \<le> length img \<and> length img < 2 ^ 63)"

definition wf_block :: "64 word \<Rightarrow> FileBlock \<Rightarrow> bool" where
  "wf_block N b =
     (m_totalBlocks b = N \<and> unat (m_index b) < unat N
      \<and> m_offset b = getOffsetOfFileBlock (m_index b) N)"

definition coherent :: "image \<Rightarrow> FileBlock \<Rightarrow> bool" where
  "coherent img b =
     (headerBytesWritten img (unat (m_offset b)) = m_bytesWritten b
      \<and> headerNext img (unat (m_offset b)) = m_next b)"

definition chain_inv :: "64 word \<Rightarrow> FileBlock list \<times> image \<Rightarrow> bool" where
  "chain_inv N st =
     (case st of (bs, img) \<Rightarrow>
        image_ok N img \<and> list_all (\<lambda>b. wf_block N b \<and> coherent img b) bs
        \<and> distinct (map m_index bs) \<and> linked bs)"

text \<open>
  The valid payload of a block, the bytes of a chain, and the state of an entry that is
  at its end: a well-formed chain whose blocks are all marked in the bitmap, all full but
  the last.
\<close>

definition payload :: "image \<Rightarrow> FileBlock \<Rightarrow> byte list" where
  "payload img b =
     fstream_read_at img (unat (m_offset b) + FILE_BLOCK_META) (unat (m_bytesWritten b))"

definition chainData :: "image \<Rightarrow> FileBlock list \<Rightarrow> byte list" where
  "chainData img bs = concat (map (payload img) bs)"

definition entry_inv :: "64 word \<Rightarrow> FileBlock list \<times> image \<Rightarrow> bool" where
  "entry_inv N st =
     (case st of (bs, img) \<Rightarrow>
        chain_inv N (bs, img)
        \<and> list_all (\<lambda>b. isBlockInUse (m_index b) N img) bs
        \<and> list_all (\<lambda>b. unat (m_bytesWritten b) = payloadCapacity) (butlast bs)
        \<and> unat (m_bytesWritten (last bs)) \<le> payloadCapacity)"

text \<open>A block object as the constructor for reading makes it from a header that agrees
  with the object.\<close>

definition reopened :: "FileBlock \<Rightarrow> FileBlock" where
  "reopened b = b\<lparr>m_initialBytesWritten := m_bytesWritten b, m_extraOffset := 0\<rparr>"


text \<open>The second image differs from the first at most in the bytes \<open>[p, p + len)\<close>.\<close>

definition only_changes :: "image \<Rightarrow> image \<Rightarrow> nat \<Rightarrow> nat \<Rightarrow> bool" where
  "only_changes img img' p len =
     (length img' = length img
      \<and> (\<forall>q n. q + n \<le> p \<or> p + len \<le> q \<longrightarrow> fstream_read_at img' q n = fstream_read_at img q n))"


section \<open>Concrete images, blocks and streams\<close>

text \<open>
  Images of two blocks (the bitmap byte is at offset 48, block 0 at 512, block 1 at 1024),
  used to evaluate the operations: an image with no block in use; an image whose block 0
  holds a file of five bytes; an image whose block 0 was just made with block 1 as its
  successor.
\<close>

definition fresh_image :: image where
  "fresh_image = [2] @ replicate 1535 0"

definition demo_image :: image where
  "demo_image = [2] @ replicate 47 0 @ [1] @ replicate 463 0
       @ [5, 0, 0, 0, 0, 0, 0, 0, 0, 0, 0, 0] @ [1, 2, 3, 4, 5] @ replicate 495 0
       @ replicate 512 0"

definition demo_block :: FileBlock where
  "demo_block = \<lparr>m_totalBlocks = 2, m_index = 0, m_bytesWritten = 5, m_initialBytesWritten = 5,
      m_next = 0, m_offset = 512, m_extraOffset = 0\<rparr>"

definition linked_image :: image where
  "linked_image = [2] @ replicate 511 0 @ [0, 0, 0, 0, 1, 0, 0, 0, 0, 0, 0, 0] @ replicate 1012 0"

definition fresh_block :: FileBlock where
  "fresh_block = \<lparr>m_totalBlocks = 2, m_index = 0, m_bytesWritten = 0, m_initialBytesWritten = 0,
      m_next = 1, m_offset = 512, m_extraOffset = 0\<rparr>"

text \<open>
  Streams over a file of four bytes, as the constructor of the stream and seeks leave
  them: one that is good, its positions and the host's at 1; the same on a device that
  refuses every transfer; one whose image could not be opened, which holds \<^verbatim>\<open>failbit\<close>
  from the start; and a fresh one with the transformer that shifts. Their buffer is that
  of GNU libstdc++: of 8191 bytes, it takes a write that is shorter than 1024 bytes and
  than the room left.
\<close>

definition buffer_takes :: "nat \<Rightarrow> nat \<Rightarrow> bool" where
  "buffer_takes p n = (n < min 1024 (8191 - p))"

definition demo_stream :: ContainerImageStream where
  "demo_stream = \<lparr>m_stream = \<lparr>content = [1, 2, 3, 4], fpos = 1, pending = [],
       takes = buffer_takes, badbit = False, failbit = False, io_error = False\<rparr>,
     m_byteTransformer = NullByteTransformer, m_gpos = 1, m_ppos = 1\<rparr>"

definition broken_stream :: ContainerImageStream where
  "broken_stream = demo_stream\<lparr>m_stream := (m_stream demo_stream)\<lparr>io_error := True\<rparr>\<rparr>"

definition unopened_stream :: ContainerImageStream where
  "unopened_stream = \<lparr>m_stream = \<lparr>content = [], fpos = 0, pending = [],
       takes = buffer_takes, badbit = False, failbit = True, io_error = False\<rparr>,
     m_byteTransformer = NullByteTransformer, m_gpos = 0, m_ppos = 0\<rparr>"

definition cipher_stream :: ContainerImageStream where
  "cipher_stream = \<lparr>m_stream = \<lparr>content = [1, 2, 3, 4], fpos = 0, pending = [],
       takes = buffer_takes, badbit = False, failbit = False, io_error = False\<rparr>,
     m_byteTransformer = ShiftByteTransformer, m_gpos = 0, m_ppos = 0\<rparr>"

text \<open>An image whose blocks 0 and 1 are the chain of a file of 505 bytes, and the two
  block objects.\<close>

definition chain_image :: image where
  "chain_image = [2] @ replicate 47 0 @ [3] @ replicate 463 0
       @ [244, 1, 0, 0, 1, 0, 0, 0, 0, 0, 0, 0] @ replicate 500 7
       @ [5, 0, 0, 0, 1, 0, 0, 0, 0, 0, 0, 0] @ [1, 2, 3, 4, 5] @ replicate 495 0"

definition first_block :: FileBlock where
  "first_block = \<lparr>m_totalBlocks = 2, m_index = 0, m_bytesWritten = 500,
      m_initialBytesWritten = 500, m_next = 1, m_offset = 512, m_extraOffset = 0\<rparr>"

definition second_block :: FileBlock where
  "second_block = \<lparr>m_totalBlocks = 2, m_index = 1, m_bytesWritten = 5,
      m_initialBytesWritten = 5, m_next = 1, m_offset = 1024, m_extraOffset = 0\<rparr>"


text \<open>An image of four blocks whose block 0 is in use (the root folder's).\<close>

definition root_image :: image where
  "root_image = [4] @ replicate 47 0 @ [1] @ replicate 2511 0"


section \<open>Little-endian conversions\<close>

lemma le_byte_step:
  "(ucast (ucast (w :: 'a::len word) :: byte) :: 'a word) OR push_bit 8 (take_bit k (drop_bit 8 w))
     = take_bit (k + 8) w"
proof (rule bit_word_eqI)
  fix n assume n: "n < LENGTH('a)"
  show "bit (ucast (ucast w :: byte) OR push_bit 8 (take_bit k (drop_bit 8 w))) n
        = bit (take_bit (k + 8) w) n"
  proof (cases "n < 8")
    case True
    then show ?thesis using n by (auto simp add: bit_simps)
  next
    case False
    then show ?thesis using n by (auto simp add: bit_simps)
  qed
qed

lemma le_bytes_fold:
  "foldr (\<lambda>b acc. ucast b OR push_bit 8 acc)
      (map (\<lambda>i. (ucast (drop_bit (8 * i) (v :: 'a::len word)) :: byte)) [k..<k + m]) (0 :: 'a word)
    = take_bit (8 * m) (drop_bit (8 * k) v)"
proof (induction m arbitrary: k)
  case 0
  then show ?case by simp
next
  case (Suc m)
  have "[k..<k + Suc m] = k # [Suc k..<Suc k + m]"
    by (simp add: upt_rec)
  then show ?case
    using Suc.IH [of "Suc k"] le_byte_step [of "drop_bit (8 * k) v" "8 * m"]
    by (simp add: drop_bit_drop_bit add.commute)
qed

lemma convert32_roundtrip [simp]:
  "convertInt4ArrayToInt32 (convertInt32ToInt4Array v) = v"
  using le_bytes_fold [of v 0 4]
  by (simp add: convertInt32ToInt4Array_def convertInt4ArrayToInt32_def take_bit_word_eq_self)

lemma convert64_roundtrip [simp]:
  "convertInt8ArrayToInt64 (convertUInt64ToInt8Array v) = v"
  using le_bytes_fold [of v 0 8]
  by (simp add: convertUInt64ToInt8Array_def convertInt8ArrayToInt64_def take_bit_word_eq_self)

lemma length_convert32 [simp]: "length (convertInt32ToInt4Array v) = 4"
  by (simp add: convertInt32ToInt4Array_def)

lemma length_convert64 [simp]: "length (convertUInt64ToInt8Array v) = 8"
  by (simp add: convertUInt64ToInt8Array_def)

lemma convert32_nonempty [simp]: "convertInt32ToInt4Array v \<noteq> []"
  by (simp add: convertInt32ToInt4Array_def)

lemma convert64_nonempty [simp]: "convertUInt64ToInt8Array v \<noteq> []"
  by (simp add: convertUInt64ToInt8Array_def)

section \<open>The copy loop of the null transformer\<close>

lemma copy_loop_eq:
  "int i \<le> len \<Longrightarrow> nat len \<le> length inp \<Longrightarrow> nat len \<le> length out \<Longrightarrow>
   copy_loop i len inp out = take i out @ take (nat len - i) (drop i inp) @ drop (nat len) out"
proof (induction i len inp out rule: copy_loop.induct)
  case (1 i len inp out)
  show ?case
  proof (cases "int i < len")
    case True
    then have i: "i < nat len" "i < length inp" "i < length out"
      using "1.prems" by auto
    have ih: "copy_loop (i + 1) len inp (out[i := inp ! i])
        = take (i + 1) (out[i := inp ! i]) @ take (nat len - (i + 1)) (drop (i + 1) inp)
          @ drop (nat len) (out[i := inp ! i])"
      using "1.IH" [OF True] True "1.prems" by simp
    have a: "take (i + 1) (out[i := inp ! i]) = take i out @ [inp ! i]"
      using i by (simp add: take_Suc_conv_app_nth)
    have b: "drop (nat len) (out[i := inp ! i]) = drop (nat len) out"
      using i by simp
    have c: "take (nat len - i) (drop i inp) = inp ! i # take (nat len - (i + 1)) (drop (i + 1) inp)"
    proof -
      have "drop i inp = inp ! i # drop (i + 1) inp"
        using i by (simp add: Cons_nth_drop_Suc)
      moreover have "nat len - i = Suc (nat len - (i + 1))"
        using i by simp
      ultimately show ?thesis by simp
    qed
    have "copy_loop i len inp out = copy_loop (i + 1) len inp (out[i := inp ! i])"
      using True by (subst copy_loop.simps) simp
    then show ?thesis
      by (simp only: ih a b c append_assoc append_Cons append_Nil)
  next
    case False
    then have "int i = len" using "1.prems" by simp
    then show ?thesis using "1.prems" by (subst copy_loop.simps) auto
  qed
qed

lemma copy_loop_nonpos: "len \<le> 0 \<Longrightarrow> copy_loop 0 len inp out = out"
  by (subst copy_loop.simps) simp

lemma null_copy:
  "nat len \<le> length inp \<Longrightarrow> nat len \<le> length out \<Longrightarrow>
   copy_loop 0 len inp out = take (nat len) inp @ drop (nat len) out"
proof (cases "0 \<le> len")
  case True
  assume "nat len \<le> length inp" "nat len \<le> length out"
  then show ?thesis using copy_loop_eq [of 0 len inp out] True by simp
next
  case False
  then show ?thesis by (simp add: copy_loop_nonpos)
qed

text \<open>
  C6. Decrypting what was encrypted at the same offset gives the input back. For the
  null transformer, with buffers that hold at least \<open>n\<close> bytes (the precondition of the
  loops): the first \<open>n\<close> bytes of the decryption's output buffer are the first \<open>n\<close>
  bytes of \<open>x\<close>, the rest of the buffer is untouched; so for a string \<open>x\<close> of exactly
  \<open>n\<close> bytes and a buffer of \<open>n\<close> bytes the result is \<open>x\<close>.
\<close>

theorem null_transformer_roundtrip:
  assumes "nat n \<le> length x" and "nat n \<le> length out" and "nat n \<le> length out'"
  shows "doDecrypt (doEncrypt x out ofs n) out' ofs n = take (nat n) x @ drop (nat n) out'"
proof -
  have e: "doEncrypt x out ofs n = take (nat n) x @ drop (nat n) out"
    using assms by (simp add: doEncrypt_def null_copy)
  have l: "nat n \<le> length (doEncrypt x out ofs n)"
    using assms by (simp add: e)
  have d: "doDecrypt (doEncrypt x out ofs n) out' ofs n
           = take (nat n) (doEncrypt x out ofs n) @ drop (nat n) out'"
    using l assms by (simp add: doDecrypt_def null_copy)
  show ?thesis
    using assms by (subst d) (simp add: e)
qed

theorem null_transformer_roundtrip_witness:
  "doDecrypt (doEncrypt [1, 2, 3] [0, 0, 0] 7 3) [9, 9, 9] 7 3 = [1, 2, 3 :: byte]"
  using null_transformer_roundtrip [of 3 "[1, 2, 3]" "[0, 0, 0]" "[9, 9, 9]" 7]
  by simp

section \<open>Reading and writing the image\<close>

lemma length_fstream_write_at [simp]:
  "length (fstream_write_at img pos bs)
   = (if bs = [] then length img else max (length img) (pos + length bs))"
  by (auto simp add: fstream_write_at_def)

lemma read_write_same [simp]:
  "fstream_read_at (fstream_write_at img pos bs) pos (length bs) = bs"
  by (simp add: fstream_write_at_def fstream_read_at_def)

lemma read_write_after:
  "pos + length bs \<le> q \<Longrightarrow>
   fstream_read_at (fstream_write_at img pos bs) q n = fstream_read_at img q n"
  by (cases "length img \<le> pos") (simp_all add: fstream_write_at_def fstream_read_at_def min_def)

lemma read_write_before:
  "q + n \<le> pos \<Longrightarrow> q + n \<le> length img \<Longrightarrow>
   fstream_read_at (fstream_write_at img pos bs) q n = fstream_read_at img q n"
  by (simp add: fstream_write_at_def fstream_read_at_def drop_take min_def)

lemmas demo_defs = linked_image_def demo_image_def demo_block_def fresh_image_def fresh_block_def
  getOffsetOfFileBlock_def HDR_def FILE_BLOCK_SIZE_def FILE_BLOCK_META_def
  fstream_read_at_def fstream_write_at_def headerBytesWritten_def headerNext_def
  convertInt4ArrayToInt32_def convertInt8ArrayToInt64_def
  convertInt32ToInt4Array_def convertUInt64ToInt8Array_def


section \<open>File blocks: write\<close>

lemma stream_seekp_lands:
  "unat pos < 2 ^ 63 \<Longrightarrow> stream_seekp (img, p, True) pos = (img, unat pos, True)"
  by (simp add: stream_seekp_def)

lemma stream_seekp_fails:
  "2 ^ 63 \<le> unat pos \<Longrightarrow> stream_seekp (img, p, good) pos = (img, p, False)"
  by (simp add: stream_seekp_def)

lemma stream_seekp_failed: "stream_seekp (img, p, False) pos = (img, p, False)"
  by (simp add: stream_seekp_def)

lemma stream_write_lands:
  "p + length bs < 2 ^ 63 \<Longrightarrow>
   stream_write (img, p, True) bs = (fstream_write_at img p bs, p + length bs, True)"
  by (simp add: stream_write_def)

lemma stream_write_failed: "stream_write (img, p, False) bs = (img, p, False)"
  by (simp add: stream_write_def)

lemma FileBlock_write_memory:
  "fst (FileBlock_write fb img buf) =
     (if length buf < FILE_BLOCK_SIZE - FILE_BLOCK_META \<or> 0 < m_extraOffset fb
      then fb\<lparr>m_bytesWritten := m_bytesWritten fb + of_nat (length buf), m_next := m_index fb\<rparr>
      else fb\<lparr>m_bytesWritten := m_bytesWritten fb + of_nat (length buf)\<rparr>)"
  by (simp add: FileBlock_write_def Let_def)

lemma FileBlock_write_returns: "snd (snd (FileBlock_write fb img buf)) = length buf"
  by (simp add: FileBlock_write_def Let_def)

text \<open>The image after a block write whose seeks and writes land: three writes inside
  the block.\<close>

lemma FileBlock_write_image:
  assumes "unat (m_offset fb) + FILE_BLOCK_META + unat (m_extraOffset fb) + length buf < 2 ^ 63"
  shows "fst (snd (FileBlock_write fb img buf)) =
     (let img1 = fstream_write_at img (unat (m_offset fb) + FILE_BLOCK_META + unat (m_extraOffset fb)) buf;
          img2 = fstream_write_at img1 (unat (m_offset fb))
                   (convertInt32ToInt4Array (m_bytesWritten fb + of_nat (length buf)))
      in if length buf < FILE_BLOCK_SIZE - FILE_BLOCK_META \<or> 0 < m_extraOffset fb
         then fstream_write_at img2 (unat (m_offset fb) + 4) (convertUInt64ToInt8Array (m_index fb))
         else img2)"
proof -
  let ?t = "m_offset fb + of_nat FILE_BLOCK_META + m_extraOffset fb"
  have t: "unat ?t = unat (m_offset fb) + FILE_BLOCK_META + unat (m_extraOffset fb)"
    using assms by (simp add: unat_word_ariths FILE_BLOCK_META_def)
  let ?u = "unat (m_offset fb) + FILE_BLOCK_META + unat (m_extraOffset fb)"
  have 1: "stream_seekp (img, 0, True) ?t = (img, ?u, True)"
    using assms stream_seekp_lands [of ?t img 0] by (simp add: t)
  have 2: "stream_write (img, ?u, True) buf = (fstream_write_at img ?u buf, ?u + length buf, True)"
    using assms by (intro stream_write_lands) simp
  have 3: "stream_seekp (i, q, True) (m_offset fb) = (i, unat (m_offset fb), True)" for i q
    using assms by (intro stream_seekp_lands) simp
  have 4: "stream_write (i, unat (m_offset fb), True) (convertInt32ToInt4Array v)
           = (fstream_write_at i (unat (m_offset fb)) (convertInt32ToInt4Array v),
              unat (m_offset fb) + 4, True)" for i v
    using assms stream_write_lands [of "unat (m_offset fb)" "convertInt32ToInt4Array v" i]
    by (simp add: FILE_BLOCK_META_def)
  have 5: "stream_write (i, unat (m_offset fb) + 4, True) (convertUInt64ToInt8Array w)
           = (fstream_write_at i (unat (m_offset fb) + 4) (convertUInt64ToInt8Array w),
              unat (m_offset fb) + 4 + 8, True)" for i w
    using assms stream_write_lands [of "unat (m_offset fb) + 4" "convertUInt64ToInt8Array w" i]
    by (simp add: FILE_BLOCK_META_def)
  show ?thesis
    by (simp add: FileBlock_write_def Let_def 1 2 3 4 5)
qed

text \<open>When the first seek fails nothing is written.\<close>

lemma FileBlock_write_failed_seek:
  assumes "2 ^ 63 \<le> unat (m_offset fb + of_nat FILE_BLOCK_META + m_extraOffset fb)"
  shows "fst (snd (FileBlock_write fb img buf)) = img"
  by (simp add: FileBlock_write_def Let_def stream_seekp_fails [OF assms]
      stream_seekp_failed stream_write_failed)

lemma FileBlock_write_disk_size:
  assumes "unat (m_offset fb) + FILE_BLOCK_META + unat (m_extraOffset fb) + length buf < 2 ^ 63"
  shows "headerBytesWritten (fst (snd (FileBlock_write fb img buf))) (unat (m_offset fb))
     = m_bytesWritten fb + of_nat (length buf)"
proof -
  have "fstream_read_at (fstream_write_at (fstream_write_at i (unat (m_offset fb)) (convertInt32ToInt4Array v))
            (unat (m_offset fb) + 4) (convertUInt64ToInt8Array w)) (unat (m_offset fb)) 4
        = convertInt32ToInt4Array v" for i v w
    using read_write_before [of "unat (m_offset fb)" 4 "unat (m_offset fb) + 4"
        "fstream_write_at i (unat (m_offset fb)) (convertInt32ToInt4Array v)" "convertUInt64ToInt8Array w"]
      read_write_same [of i "unat (m_offset fb)" "convertInt32ToInt4Array v"]
    by simp
  moreover have "fstream_read_at (fstream_write_at i (unat (m_offset fb)) (convertInt32ToInt4Array v))
            (unat (m_offset fb)) 4 = convertInt32ToInt4Array v" for i v
    using read_write_same [of i "unat (m_offset fb)" "convertInt32ToInt4Array v"] by simp
  ultimately show ?thesis
    by (simp add: FileBlock_write_image [OF assms] Let_def headerBytesWritten_def)
qed

lemma FileBlock_write_disk_next_set:
  assumes "length buf < FILE_BLOCK_SIZE - FILE_BLOCK_META \<or> 0 < m_extraOffset fb"
    and "unat (m_offset fb) + FILE_BLOCK_META + unat (m_extraOffset fb) + length buf < 2 ^ 63"
  shows "headerNext (fst (snd (FileBlock_write fb img buf))) (unat (m_offset fb)) = m_index fb"
proof -
  have "fstream_read_at (fstream_write_at i (unat (m_offset fb) + 4) (convertUInt64ToInt8Array w))
            (unat (m_offset fb) + 4) 8 = convertUInt64ToInt8Array w" for i w
    using read_write_same [of i "unat (m_offset fb) + 4" "convertUInt64ToInt8Array w"] by simp
  then show ?thesis
    using assms(1) by (simp add: FileBlock_write_image [OF assms(2)] Let_def headerNext_def)
qed

lemma FileBlock_write_disk_next_kept:
  assumes "\<not> (length buf < FILE_BLOCK_SIZE - FILE_BLOCK_META \<or> 0 < m_extraOffset fb)"
    and "unat (m_offset fb) + FILE_BLOCK_META \<le> length img"
    and "unat (m_offset fb) + FILE_BLOCK_META + unat (m_extraOffset fb) + length buf < 2 ^ 63"
  shows "headerNext (fst (snd (FileBlock_write fb img buf))) (unat (m_offset fb))
         = headerNext img (unat (m_offset fb))"
proof -
  let ?o = "unat (m_offset fb)"
  have e: "m_extraOffset fb = 0" using assms(1) word_neq_0_conv by blast
  have 1: "fstream_read_at (fstream_write_at img (?o + 12) buf) (?o + 4) 8
           = fstream_read_at img (?o + 4) 8"
    using assms(2) by (intro read_write_before) (simp_all add: FILE_BLOCK_META_def)
  have 2: "fstream_read_at (fstream_write_at (fstream_write_at img (?o + 12) buf) ?o
              (convertInt32ToInt4Array v)) (?o + 4) 8
           = fstream_read_at (fstream_write_at img (?o + 12) buf) (?o + 4) 8" for v
    by (intro read_write_after) simp
  show ?thesis
    using assms(1) e
    by (simp add: FileBlock_write_image [OF assms(3)] Let_def headerNext_def 1 2 FILE_BLOCK_META_def)
qed

lemma demo_open: "FileBlock_open demo_image 2 0 = Some demo_block"
  by (simp add: FileBlock_open_def demo_defs)

lemmas write_defs = FileBlock_write_def stream_seekp_def stream_write_def setExtraOffset_def
  Let_def

text \<open>
  C2, as stated, fails. The block of \<open>demo_image\<close> holds five bytes; with the
  intra-block offset set to 2, writing two bytes (an overwrite of bytes 2 and 3 of the
  payload) raises \<open>bytesWritten\<close> from 5 to 7.
\<close>

theorem FileBlock_write_counts_overwrite:
  "FileBlock_open demo_image 2 0 = Some demo_block
   \<and> m_extraOffset (setExtraOffset demo_block 2) \<noteq> 0
   \<and> m_bytesWritten (setExtraOffset demo_block 2) = 5
   \<and> m_bytesWritten (fst (FileBlock_write (setExtraOffset demo_block 2) demo_image [9, 9])) = 7"
  by (simp add: demo_open) (simp add: FileBlock_write_def setExtraOffset_def demo_block_def Let_def)

text \<open>
  C2, amended. Every \<open>write(buf, n)\<close> adds \<open>n\<close> to \<open>bytesWritten\<close> (modulo
  \<open>2^32\<close>) in the block object, whatever the intra-block offset is: the block does not
  tell an overwrite from an append. When the written bytes lie inside the image, a host
  file, the four size bytes of the header on disk hold the new count as well. When the
  seek to the payload fails, its target being no \<^verbatim>\<open>std::streamoff\<close>, nothing is written:
  the object counts \<open>n\<close> bytes more and the image is as it was.
\<close>

theorem FileBlock_write_always_counts:
  "m_bytesWritten (fst (FileBlock_write fb img buf)) = m_bytesWritten fb + of_nat (length buf)
   \<and> (length img < 2 ^ 63
        \<and> unat (m_offset fb) + FILE_BLOCK_META + unat (m_extraOffset fb) + length buf \<le> length img
      \<longrightarrow> headerBytesWritten (fst (snd (FileBlock_write fb img buf))) (unat (m_offset fb))
            = m_bytesWritten fb + of_nat (length buf))
   \<and> (2 ^ 63 \<le> unat (m_offset fb + of_nat FILE_BLOCK_META + m_extraOffset fb)
      \<longrightarrow> fst (snd (FileBlock_write fb img buf)) = img)"
  by (simp add: FileBlock_write_memory FileBlock_write_disk_size FileBlock_write_failed_seek)

theorem FileBlock_write_always_counts_witness:
  "m_bytesWritten (fst (FileBlock_write (setExtraOffset demo_block 2) demo_image [9, 9])) = 7
   \<and> headerBytesWritten
        (fst (snd (FileBlock_write (setExtraOffset demo_block 2) demo_image [9, 9]))) 512 = 7
   \<and> m_bytesWritten
        (fst (FileBlock_write (setExtraOffset demo_block (2 ^ 63)) demo_image [9, 9])) = 7
   \<and> headerBytesWritten
        (fst (snd (FileBlock_write (setExtraOffset demo_block (2 ^ 63)) demo_image [9, 9]))) 512 = 5"
proof -
  have h: "headerBytesWritten demo_image 512 = 5"
    by (simp add: demo_defs)
  have l: "length demo_image = 1536"
    by (simp add: demo_image_def)
  show ?thesis
    using FileBlock_write_always_counts [of "setExtraOffset demo_block 2" demo_image "[9, 9]"]
      FileBlock_write_always_counts [of "setExtraOffset demo_block (2 ^ 63)" demo_image "[9, 9]"]
    by (simp add: setExtraOffset_def demo_block_def FILE_BLOCK_META_def h l)
qed



section \<open>File blocks: construction and the bitmap\<close>

lemma HDR_ge: "48 + (N + 7) div 8 \<le> HDR N"
  by (simp add: HDR_def FILE_BLOCK_SIZE_def)

lemma bitmap_byte_below_HDR: "j < N \<Longrightarrow> 48 + j div 8 < HDR N"
proof -
  assume "j < N"
  then have "j div 8 < (N + 7) div 8" by arith
  then show ?thesis using HDR_ge [of N] by simp
qed

lemma isBlockInUse_write_beyond:
  assumes "unat j < unat N" and "HDR (unat N) \<le> pos" and "HDR (unat N) \<le> length img"
  shows "isBlockInUse j N (fstream_write_at img pos bs) = isBlockInUse j N img"
proof -
  have "48 + unat j div 8 < HDR (unat N)"
    using assms(1) by (rule bitmap_byte_below_HDR)
  then have "fstream_read_at (fstream_write_at img pos bs) (48 + unat j div 8) 1
             = fstream_read_at img (48 + unat j div 8) 1"
    using assms(2,3) by (intro read_write_before) simp_all
  then show ?thesis by (simp add: isBlockInUse_def)
qed

lemma block_offset_unat:
  assumes "unat index < unat totalBlocks"
    and "HDR (unat totalBlocks) + unat totalBlocks * FILE_BLOCK_SIZE < 2 ^ 64"
  shows "unat (getOffsetOfFileBlock index totalBlocks)
         = HDR (unat totalBlocks) + unat index * FILE_BLOCK_SIZE"
proof -
  have "unat index * FILE_BLOCK_SIZE \<le> unat totalBlocks * FILE_BLOCK_SIZE"
    using assms(1) by simp
  then have "HDR (unat totalBlocks) + unat index * FILE_BLOCK_SIZE < 2 ^ 64"
    using assms(2) by linarith
  then show ?thesis
    unfolding getOffsetOfFileBlock_def unat_of_nat by simp
qed

lemma FileBlock_new_Inr:
  "FileBlock_new img totalBlocks index nextIndex =
     Inr (\<lparr>m_totalBlocks = totalBlocks, m_index = index, m_bytesWritten = 0,
            m_initialBytesWritten = 0, m_next = nextIndex,
            m_offset = getOffsetOfFileBlock index totalBlocks, m_extraOffset = 0\<rparr>,
          fstream_write_at
            (fstream_write_at img (unat (getOffsetOfFileBlock index totalBlocks))
               (convertInt32ToInt4Array 0))
            (unat (getOffsetOfFileBlock index totalBlocks) + 4)
            (convertUInt64ToInt8Array nextIndex))"
  by (simp add: FileBlock_new_def Let_def)

lemma header_after_new:
  "headerBytesWritten (fstream_write_at (fstream_write_at img pos (convertInt32ToInt4Array v))
       (pos + 4) (convertUInt64ToInt8Array w)) pos = v"
  "headerNext (fstream_write_at (fstream_write_at img pos (convertInt32ToInt4Array v))
       (pos + 4) (convertUInt64ToInt8Array w)) pos = w"
proof -
  have "fstream_read_at (fstream_write_at (fstream_write_at img pos (convertInt32ToInt4Array v))
       (pos + 4) (convertUInt64ToInt8Array w)) pos 4 = convertInt32ToInt4Array v"
    using read_write_before [of pos 4 "pos + 4" "fstream_write_at img pos (convertInt32ToInt4Array v)"
        "convertUInt64ToInt8Array w"]
      read_write_same [of img pos "convertInt32ToInt4Array v"]
    by simp
  then show "headerBytesWritten (fstream_write_at (fstream_write_at img pos (convertInt32ToInt4Array v))
       (pos + 4) (convertUInt64ToInt8Array w)) pos = v"
    by (simp add: headerBytesWritten_def)
  have "fstream_read_at (fstream_write_at (fstream_write_at img pos (convertInt32ToInt4Array v))
       (pos + 4) (convertUInt64ToInt8Array w)) (pos + 4) 8 = convertUInt64ToInt8Array w"
    using read_write_same [of _ "pos + 4" "convertUInt64ToInt8Array w"] by simp
  then show "headerNext (fstream_write_at (fstream_write_at img pos (convertInt32ToInt4Array v))
       (pos + 4) (convertUInt64ToInt8Array w)) pos = w"
    by (simp add: headerNext_def)
qed

lemma read_one_byte: "k < length img \<Longrightarrow> fstream_read_at img k (Suc 0) = [img ! k]"
  by (simp add: fstream_read_at_def take_Suc hd_drop_conv_nth)

lemma read_one_byte_written: "fstream_read_at (fstream_write_at img k [b]) k (Suc 0) = [b]"
  using read_write_same [of img k "[b]"] by simp

lemma register_sets_bit:
  assumes "48 + unat i div 8 < length img"
  shows "isBlockInUse i N (updateVolumeBitmapWithOne img i N)"
proof -
  have "bit (img ! (48 + unat i div 8) OR push_bit (unat i mod 8) (1 :: byte)) (unat i mod 8)"
    by (simp add: bit_simps)
  then show ?thesis
    using assms
    by (simp add: isBlockInUse_def updateVolumeBitmapWithOne_def read_one_byte read_one_byte_written)
qed

lemma register_keeps_other_bits:
  assumes "48 + unat i div 8 < length img" and "j \<noteq> i"
  shows "isBlockInUse j N (updateVolumeBitmapWithOne img i N) = isBlockInUse j N img"
proof (cases "unat j div 8 = unat i div 8")
  case True
  then have m: "unat j mod 8 \<noteq> unat i mod 8"
    using assms(2) by (metis div_mult_mod_eq word_unat_eq_iff)
  have "bit (img ! (48 + unat i div 8) OR push_bit (unat i mod 8) (1 :: byte)) (unat j mod 8)
        = bit (img ! (48 + unat i div 8)) (unat j mod 8)"
    using m by (auto simp add: bit_simps)
  then show ?thesis
    using assms(1) True
    by (simp add: isBlockInUse_def updateVolumeBitmapWithOne_def read_one_byte read_one_byte_written)
next
  case False
  have "fstream_read_at (fstream_write_at img (48 + unat i div 8) [b]) (48 + unat j div 8) (Suc 0)
        = fstream_read_at img (48 + unat j div 8) (Suc 0)" for b
  proof (cases "unat j div 8 < unat i div 8")
    case True
    then show ?thesis using assms(1) by (intro read_write_before) simp_all
  next
    case f: False
    then show ?thesis using False by (intro read_write_after) simp
  qed
  then show ?thesis
    using assms(1) by (simp add: isBlockInUse_def updateVolumeBitmapWithOne_def read_one_byte)
qed

text \<open>
  C8, as stated, fails. On an image with no block in use, the constructor for writing
  makes block 1 with successor 1: the header is on disk, and the bit of block 1 in the
  bitmap is still 0.
\<close>

theorem FileBlock_new_leaves_bitmap:
  "case FileBlock_new fresh_image 2 1 1 of
     Inl e \<Rightarrow> False
   | Inr (fb, img') \<Rightarrow> headerBytesWritten img' 1024 = 0 \<and> headerNext img' 1024 = 1
                        \<and> \<not> isBlockInUse 1 2 img'"
  by (simp add: FileBlock_new_Inr isBlockInUse_def demo_defs upt_rec)

text \<open>
  C8, amended. On an image that holds all \<open>totalBlocks\<close> blocks, the constructor for
  writing of a block \<open>index < totalBlocks\<close> writes a fresh header at image offset
  \<open>HDR + index * FILE_BLOCK_SIZE\<close>, with \<open>bytesWritten = 0\<close> and the given
  \<open>next\<close>, and leaves every bit of the bitmap as it was; the bit of the block is set
  by the separate call \<open>registerBlockWithVolumeBitmap\<close>.
\<close>

theorem FileBlock_new_writes_header:
  assumes "unat index < unat totalBlocks"
    and "HDR (unat totalBlocks) + unat totalBlocks * FILE_BLOCK_SIZE \<le> length img"
    and "length img < 2 ^ 64"
    and "FileBlock_new img totalBlocks index nextIndex = Inr (fb, img')"
  shows "unat (m_offset fb) = HDR (unat totalBlocks) + unat index * FILE_BLOCK_SIZE
     \<and> m_index fb = index \<and> m_bytesWritten fb = 0 \<and> m_next fb = nextIndex
     \<and> headerBytesWritten img' (unat (m_offset fb)) = 0
     \<and> headerNext img' (unat (m_offset fb)) = nextIndex
     \<and> (\<forall>j. unat j < unat totalBlocks \<longrightarrow>
            isBlockInUse j totalBlocks img' = isBlockInUse j totalBlocks img)
     \<and> isBlockInUse index totalBlocks (registerBlockWithVolumeBitmap fb img')"
proof -
  let ?o = "unat (getOffsetOfFileBlock index totalBlocks)"
  let ?img1 = "fstream_write_at img ?o (convertInt32ToInt4Array 0)"
  have fb: "fb = \<lparr>m_totalBlocks = totalBlocks, m_index = index, m_bytesWritten = 0,
            m_initialBytesWritten = 0, m_next = nextIndex,
            m_offset = getOffsetOfFileBlock index totalBlocks, m_extraOffset = 0\<rparr>"
    and img': "img' = fstream_write_at ?img1 (?o + 4) (convertUInt64ToInt8Array nextIndex)"
    using assms(4) by (simp_all add: FileBlock_new_Inr)
  have o: "?o = HDR (unat totalBlocks) + unat index * FILE_BLOCK_SIZE"
    using assms(1,2,3) by (intro block_offset_unat) simp_all
  have h: "HDR (unat totalBlocks) \<le> length img"
    using assms(2) by simp
  have bm: "isBlockInUse j totalBlocks img' = isBlockInUse j totalBlocks img"
    if "unat j < unat totalBlocks" for j
  proof -
    have "isBlockInUse j totalBlocks ?img1 = isBlockInUse j totalBlocks img"
      using that h o by (intro isBlockInUse_write_beyond) simp_all
    moreover have "isBlockInUse j totalBlocks img' = isBlockInUse j totalBlocks ?img1"
      unfolding img' using that h o by (intro isBlockInUse_write_beyond) simp_all
    ultimately show ?thesis by simp
  qed
  have "48 + unat index div 8 < HDR (unat totalBlocks)"
    using assms(1) by (rule bitmap_byte_below_HDR)
  then have "48 + unat index div 8 < length img'"
    using h by (simp add: img')
  then have reg: "isBlockInUse index totalBlocks (registerBlockWithVolumeBitmap fb img')"
    by (simp add: registerBlockWithVolumeBitmap_def fb register_sets_bit)
  show ?thesis
    using o bm reg by (simp add: fb img' header_after_new)
qed

theorem FileBlock_new_writes_header_witness:
  "case FileBlock_new fresh_image 2 1 1 of
     Inl e \<Rightarrow> False
   | Inr (fb, img') \<Rightarrow> unat (m_offset fb) = 1024 \<and> m_bytesWritten fb = 0 \<and> m_next fb = 1
        \<and> headerBytesWritten img' 1024 = 0 \<and> headerNext img' 1024 = 1
        \<and> isBlockInUse 0 2 img' = isBlockInUse 0 2 fresh_image
        \<and> isBlockInUse 1 2 (registerBlockWithVolumeBitmap fb img')"
proof -
  obtain fb img' where new: "FileBlock_new fresh_image 2 1 1 = Inr (fb, img')"
    by (simp add: FileBlock_new_Inr)
  have 1: "unat (1 :: 64 word) < unat (2 :: 64 word)" by simp
  have 2: "HDR (unat (2 :: 64 word)) + unat (2 :: 64 word) * FILE_BLOCK_SIZE \<le> length fresh_image"
    by (simp add: HDR_def FILE_BLOCK_SIZE_def fresh_image_def)
  have 3: "length fresh_image < 2 ^ 64" by (simp add: fresh_image_def)
  note th = FileBlock_new_writes_header [OF 1 2 3 new]
  have o: "unat (m_offset fb) = 1024"
    using th by (simp add: HDR_def FILE_BLOCK_SIZE_def)
  have "isBlockInUse 0 2 img' = isBlockInUse 0 2 fresh_image"
    using th by simp
  then show ?thesis
    using th o by (simp add: new)
qed

text \<open>
  C9. Serialising a 64-bit number with \<open>convertUInt64ToInt8Array\<close> and reading the
  eight bytes back with \<open>convertInt8ArrayToInt64\<close> gives the number again; hence the
  assertion of the constructor for writing holds for every \<open>next\<close>: the constructor
  always returns a block.
\<close>

theorem uint64_array_roundtrip:
  "convertInt8ArrayToInt64 (convertUInt64ToInt8Array v) = v
   \<and> (\<exists>r. FileBlock_new img totalBlocks index v = Inr r)"
  by (simp add: FileBlock_new_Inr)

text \<open>
  C10. \<open>read(buf, n)\<close> returns \<open>n\<close> and leaves the block and the image as they
  were: \<open>bytesWritten\<close>, \<open>initialBytesWritten\<close> and \<open>next\<close> of the object, the
  header on disk and the bit of the block in the bitmap.
\<close>

theorem FileBlock_read_frame:
  assumes "FileBlock_read fb img buf n = (fb', img', buf', r)"
  shows "r = n \<and> fb' = fb \<and> img' = img
     \<and> m_bytesWritten fb' = m_bytesWritten fb
     \<and> m_initialBytesWritten fb' = m_initialBytesWritten fb
     \<and> m_next fb' = m_next fb
     \<and> headerBytesWritten img' (unat (m_offset fb)) = headerBytesWritten img (unat (m_offset fb))
     \<and> headerNext img' (unat (m_offset fb)) = headerNext img (unat (m_offset fb))
     \<and> isBlockInUse (m_index fb) (m_totalBlocks fb) img'
         = isBlockInUse (m_index fb) (m_totalBlocks fb) img"
  using assms by (auto simp add: FileBlock_read_def Let_def)

theorem FileBlock_read_frame_witness:
  "FileBlock_read demo_block demo_image [0, 0, 0] 3 = (demo_block, demo_image, [1, 2, 3], 3)
   \<and> headerBytesWritten demo_image 512 = 5 \<and> headerNext demo_image 512 = 0
   \<and> isBlockInUse 0 2 demo_image"
  using FileBlock_read_frame [of demo_block demo_image "[0, 0, 0]" 3 demo_block demo_image "[1, 2, 3]" 3]
  by (simp add: FileBlock_read_def isBlockInUse_def demo_defs)

section \<open>The container image stream: positions and the cipher\<close>

lemma read_written_tail:
  "fstream_read_at (fstream_write_at img q (a @ c)) (q + length a) (length c) = c"
  by (cases "a @ c = []") (simp_all add: fstream_write_at_def fstream_read_at_def)

lemmas stream_defs = ContainerImageStream_read_def ContainerImageStream_write_def
  ContainerImageStream_seekg_def ContainerImageStream_seekp_def ContainerImageStream_flush_def
  fstream_read_def fstream_write_def fstream_flush_def fstream_seek_def fstream_sync_def Let_def

lemmas stream_values = demo_stream_def broken_stream_def unopened_stream_def cipher_stream_def
  buffer_takes_def NullByteTransformer_def ShiftByteTransformer_def

lemma length_copy_loop: "length (copy_loop i len inp out) = length out"
proof (induction i len inp out rule: copy_loop.induct)
  case (1 i len inp out)
  show ?case
  proof (cases "int i < len")
    case True
    then show ?thesis using "1.IH" by (subst copy_loop.simps) simp
  next
    case False
    then show ?thesis by (subst copy_loop.simps) simp
  qed
qed

lemma length_doEncrypt [simp]: "length (doEncrypt inp out k len) = length out"
  by (simp add: doEncrypt_def length_copy_loop)

lemma demo_cipher:
  "doEncrypt [8, 9] (replicate 2 0) k 2 = [8, 9]"
  "take 1024 (doEncrypt (replicate 1024 7) (replicate 1024 0) k 1024) = replicate 1024 7"
  by (simp_all add: doEncrypt_def null_copy)

text \<open>
  C7, as stated, fails. Transfers that do not take place, after each of which the
  position has advanced by \<open>n\<close> and is not -1.
  \<^item> On a device that refuses every transfer, a write of two bytes: the buffer takes
    them, the host stream is not bad, \<open>m_ppos\<close> goes from 1 to 3 and the file is as it
    was; the flush that follows finds the device and ends bad.
  \<^item> On a stream whose image could not be opened, a write and a read of two bytes: the
    host stream holds \<^verbatim>\<open>failbit\<close>, not \<^verbatim>\<open>badbit\<close>, nothing is transferred, and the
    position goes from 0 to 2.
  \<^item> A read of ten bytes, of which the file has three left: the host stream fails,
    \<open>m_gpos\<close> goes from 1 to 11. The write of two bytes that follows is lost: the host
    stream holds \<^verbatim>\<open>failbit\<close>, nothing is transferred, and \<open>m_ppos\<close> goes from
    1 to 3.
\<close>

theorem failed_transfer_advances_position:
  "(let w = ContainerImageStream_write broken_stream [8, 9] 2
    in \<not> badbit (m_stream w) \<and> m_ppos broken_stream = 1 \<and> m_ppos w = 3
       \<and> content (m_stream w) = [1, 2, 3, 4]
       \<and> badbit (m_stream (ContainerImageStream_flush w))
       \<and> content (m_stream (ContainerImageStream_flush w)) = [1, 2, 3, 4])
   \<and> (let w = ContainerImageStream_write unopened_stream [8, 9] 2
      in \<not> badbit (m_stream w) \<and> failbit (m_stream w) \<and> m_ppos w = 2
         \<and> content (m_stream w) = [] \<and> pending (m_stream w) = [])
   \<and> (let r = fst (ContainerImageStream_read unopened_stream [0, 0] 2)
      in \<not> badbit (m_stream r) \<and> failbit (m_stream r) \<and> m_gpos r = 2)
   \<and> (let r = fst (ContainerImageStream_read demo_stream (replicate 10 0) 10);
          w = ContainerImageStream_write r [8, 9] 2
      in \<not> badbit (m_stream r) \<and> failbit (m_stream r) \<and> fpos (m_stream r) = 4
         \<and> m_gpos demo_stream = 1 \<and> m_gpos r = 11
         \<and> \<not> badbit (m_stream w) \<and> content (m_stream w) = [1, 2, 3, 4]
         \<and> pending (m_stream w) = [] \<and> m_ppos r = 1 \<and> m_ppos w = 3)"
  by (simp add: stream_defs stream_values on_host_def fstream_read_at_def fstream_write_at_def
      demo_cipher)

text \<open>
  C7, amended. A read or write of \<open>n\<close> bytes through the stream sets the position
  (\<open>m_gpos\<close> for a read, \<open>m_ppos\<close> for a write) to -1 when the host stream is bad
  after the transfer, and a read then leaves the caller's buffer alone; in every other
  case the position advances by exactly \<open>n\<close>. The other position is untouched. A host
  stream that is not good before the call transfers nothing. On a host stream that is good
  before the call, a write ends bad exactly when the buffer does not take the bytes and
  the device refuses them, and a read of at least one byte with no written bytes left in
  the buffer ends bad exactly when the device refuses it.
\<close>

theorem stream_position_policy:
  "(let (r, buf') = ContainerImageStream_read cis buf n
    in m_gpos r = (if badbit (m_stream r) then - 1 else m_gpos cis + int n)
       \<and> (badbit (m_stream r) \<longrightarrow> buf' = buf)
       \<and> m_ppos r = m_ppos cis
       \<and> (badbit (m_stream cis) \<or> failbit (m_stream cis) \<longrightarrow>
            content (m_stream r) = content (m_stream cis)
            \<and> pending (m_stream r) = pending (m_stream cis)
            \<and> fpos (m_stream r) = fpos (m_stream cis))
       \<and> (\<not> badbit (m_stream cis) \<and> \<not> failbit (m_stream cis)
            \<and> pending (m_stream cis) = [] \<and> 0 < n \<longrightarrow>
            badbit (m_stream r) = io_error (m_stream cis)))
   \<and> (let w = ContainerImageStream_write cis buf n;
          c = take n (encrypt (m_byteTransformer cis) buf (replicate n 0) (m_ppos cis) (int n))
      in m_ppos w = (if badbit (m_stream w) then - 1 else m_ppos cis + int n)
         \<and> m_gpos w = m_gpos cis
         \<and> (badbit (m_stream cis) \<or> failbit (m_stream cis) \<longrightarrow>
              content (m_stream w) = content (m_stream cis)
              \<and> pending (m_stream w) = pending (m_stream cis)
              \<and> fpos (m_stream w) = fpos (m_stream cis))
         \<and> (\<not> badbit (m_stream cis) \<and> \<not> failbit (m_stream cis) \<longrightarrow>
              badbit (m_stream w)
              = (io_error (m_stream cis)
                 \<and> \<not> takes (m_stream cis) (length (pending (m_stream cis))) (length c))))"
  by (simp add: stream_defs split: prod.split)

theorem stream_position_policy_witness:
  "m_gpos (fst (ContainerImageStream_read demo_stream [0, 0] 2)) = 3
   \<and> m_gpos (fst (ContainerImageStream_read broken_stream [0, 0] 2)) = - 1
   \<and> m_ppos (ContainerImageStream_write demo_stream [8, 9] 2) = 3
   \<and> m_ppos (ContainerImageStream_write broken_stream (replicate 1024 7) 1024) = - 1
   \<and> m_ppos (ContainerImageStream_write broken_stream [8, 9] 2) = 3
   \<and> m_ppos (ContainerImageStream_write unopened_stream [8, 9] 2) = 2"
proof -
  have 1: "m_gpos (fst (ContainerImageStream_read demo_stream [0, 0] 2)) = 3"
    using stream_position_policy [of demo_stream "[0, 0]" 2]
    by (simp add: stream_values Let_def split: prod.splits)
  have 2: "m_gpos (fst (ContainerImageStream_read broken_stream [0, 0] 2)) = - 1"
    using stream_position_policy [of broken_stream "[0, 0]" 2]
    by (simp add: stream_values Let_def split: prod.splits)
  have 3: "m_ppos (ContainerImageStream_write demo_stream [8, 9] 2) = 3"
    using stream_position_policy [of demo_stream "[8, 9]" 2]
    by (simp add: stream_values Let_def)
  have 4: "m_ppos (ContainerImageStream_write broken_stream (replicate 1024 7) 1024) = - 1"
    using stream_position_policy [of broken_stream "replicate 1024 7" 1024]
    by (simp add: stream_values demo_cipher Let_def)
  have 5: "m_ppos (ContainerImageStream_write broken_stream [8, 9] 2) = 3"
    using stream_position_policy [of broken_stream "[8, 9]" 2]
    by (simp add: stream_values demo_cipher Let_def)
  have 6: "m_ppos (ContainerImageStream_write unopened_stream [8, 9] 2) = 2"
    using stream_position_policy [of unopened_stream "[8, 9]" 2]
    by (simp add: stream_defs stream_values)
  show ?thesis using 1 2 3 4 5 6 by simp
qed

text \<open>The written bytes that the buffer holds lie in front of the position: so it is on a
  fresh stream, and every operation keeps it so.\<close>

lemma pending_in_front:
  assumes "length (pending s) \<le> fpos s"
  shows "length (pending (fstream_write s bs)) \<le> fpos (fstream_write s bs)"
    and "length (pending (fst (fstream_read s n))) \<le> fpos (fst (fstream_read s n))"
    and "length (pending (fstream_seek s pos)) \<le> fpos (fstream_seek s pos)"
    and "length (pending (fstream_flush s)) \<le> fpos (fstream_flush s)"
  using assms
  by (simp_all add: fstream_write_def fstream_read_def fstream_seek_def fstream_flush_def
      fstream_sync_def Let_def)

lemma write_flush_stores:
  assumes "\<not> badbit s" and "\<not> failbit s" and "length (pending s) \<le> fpos s"
    and "\<not> badbit (fstream_flush (fstream_write s c))"
  shows "pending (fstream_flush (fstream_write s c)) = []"
    and "fstream_read_at (content (fstream_flush (fstream_write s c))) (fpos s) (length c) = c"
proof -
  have p: "fpos s + length c - (length (pending s) + length c) + length (pending s) = fpos s"
    using assms(3) by simp
  have r: "fstream_read_at
        (fstream_write_at (content s) (fpos s + length c - (length (pending s) + length c))
           (pending s @ c)) (fpos s) (length c) = c"
    using read_written_tail [of "content s"
        "fpos s + length c - (length (pending s) + length c)" "pending s" c]
    by (simp only: p)
  show "pending (fstream_flush (fstream_write s c)) = []"
    using assms(1,2,4)
    by (auto simp add: fstream_write_def fstream_flush_def fstream_sync_def split: if_splits)
  show "fstream_read_at (content (fstream_flush (fstream_write s c))) (fpos s) (length c) = c"
    using assms(1,2,4) r
    by (auto simp add: fstream_write_def fstream_flush_def fstream_sync_def on_host_def
        fstream_read_at_def split: if_splits)
qed

lemma seek_good:
  assumes "\<not> badbit (fstream_seek s pos)" and "\<not> failbit (fstream_seek s pos)"
  shows "fstream_seek s pos = (fstream_sync s)\<lparr>fpos := nat pos\<rparr>" and "0 \<le> pos"
    and "\<not> badbit s" and "\<not> failbit s"
  using assms by (auto simp add: fstream_seek_def split: if_splits)

lemma read_good:
  assumes "\<not> badbit (fst (fstream_read s n))" and "\<not> failbit (fst (fstream_read s n))"
  shows "snd (fstream_read s n) = fstream_read_at (on_host s) (fpos s) n"
    and "length (fstream_read_at (on_host s) (fpos s) n) = n"
    and "on_host (fst (fstream_read s n)) = on_host s"
proof -
  let ?got = "fstream_read_at (on_host s) (fpos s) n"
  have g: "\<not> badbit s" "\<not> failbit s"
    using assms by (auto simp add: fstream_read_def split: if_splits)
  have le: "length ?got \<le> n" by (simp add: fstream_read_at_def)
  consider (a) "pending s \<noteq> []" "io_error s" | (b) "\<not> (pending s \<noteq> [] \<and> io_error s)" "io_error s" "0 < n"
    | (c) "\<not> (pending s \<noteq> [] \<and> io_error s)" "\<not> (io_error s \<and> 0 < n)"
    by blast
  then have "snd (fstream_read s n) = ?got \<and> length ?got = n
      \<and> on_host (fst (fstream_read s n)) = on_host s"
  proof cases
    case a
    then have r: "fstream_read s n = (s\<lparr>failbit := 0 < n\<rparr>, [])"
      using g by (simp add: fstream_read_def)
    then have "n = 0" using assms(2) by simp
    then show ?thesis using r by (simp add: fstream_read_at_def on_host_def)
  next
    case b
    then have "fstream_read s n = (s\<lparr>badbit := True\<rparr>, [])"
      using g by (simp add: fstream_read_def)
    then show ?thesis using assms(1) by simp
  next
    case c
    then have r: "fstream_read s n
        = ((fstream_sync s)\<lparr>fpos := fpos s + length ?got, failbit := length ?got < n\<rparr>, ?got)"
      using g by (cases "io_error s"; cases "pending s = []") (simp_all add: fstream_read_def Let_def)
    then have "length ?got = n" using assms(2) le by simp
    then show ?thesis using r
      by (simp add: fstream_sync_def on_host_def [of "_\<lparr>fpos := _, failbit := _\<rparr>"]
          fstream_write_at_def)
  qed
  then show "snd (fstream_read s n) = ?got" "length ?got = n"
    "on_host (fst (fstream_read s n)) = on_host s"
    by simp_all
qed

lemma stream_of_write:
  "m_stream (ContainerImageStream_write cis buf n)
   = fstream_write (m_stream cis)
       (take n (encrypt (m_byteTransformer cis) buf (replicate n 0) (m_ppos cis) (int n)))"
  by (simp add: ContainerImageStream_write_def Let_def)

lemma stream_of_read:
  "m_stream (fst (ContainerImageStream_read cis buf n)) = fst (fstream_read (m_stream cis) n)"
  by (simp add: ContainerImageStream_read_def Let_def split: prod.split)

lemma buffer_of_read:
  "snd (ContainerImageStream_read cis buf n)
   = (if badbit (fst (fstream_read (m_stream cis) n)) then buf
      else decrypt (m_byteTransformer cis)
             (snd (fstream_read (m_stream cis) n)
                @ replicate (n - length (snd (fstream_read (m_stream cis) n))) 0)
             buf (m_gpos cis) (int n))"
  by (simp add: ContainerImageStream_read_def Let_def split: prod.split)

lemma not_good_stays:
  "badbit s \<or> failbit s \<Longrightarrow> failbit (fstream_flush (fstream_write s c))"
  "badbit s \<or> failbit s \<Longrightarrow> failbit (fst (fstream_read s n))"
  by (auto simp add: fstream_write_def fstream_flush_def fstream_read_def)

lemma on_host_seek:
  "fstream_seek s pos = (fstream_sync s)\<lparr>fpos := nat pos\<rparr> \<Longrightarrow>
   on_host (fstream_seek s pos) = on_host s \<and> pending (fstream_seek s pos) = []
   \<and> fpos (fstream_seek s pos) = nat pos"
  by (simp add: fstream_sync_def on_host_def [of "_\<lparr>fpos := _\<rparr>"] fstream_write_at_def)

lemma map_nth_take: "k \<le> length xs \<Longrightarrow> map (\<lambda>i. xs ! i) [0..<k] = take k xs"
  by (simp add: list_eq_iff_nth_eq)

text \<open>The transformer that shifts keeps the contract of a byte transformer: decrypting
  at an offset what was encrypted at that offset gives the bytes back.\<close>

lemma shift_roundtrip:
  assumes "nat n \<le> length x"
  shows "shiftDecrypt (shiftEncrypt x out k n) out' k n = take (nat n) x @ drop (nat n) out'"
proof -
  have "map (\<lambda>i. shiftEncrypt x out k n ! i - of_int (k + int i)) [0..<nat n]
        = map (\<lambda>i. x ! i) [0..<nat n]"
    by (rule map_cong [OF refl]) (simp add: shiftEncrypt_def nth_append)
  then show ?thesis
    using assms by (simp add: shiftDecrypt_def map_nth_take)
qed

text \<open>
  C5, as stated, fails. The host stream has one position, which \<^verbatim>\<open>seekg\<close> moves as
  well, and \<open>m_ppos\<close> does not follow it. On a fresh stream with the transformer that
  shifts, over the file \<open>[1, 2, 3, 4]\<close>: after \<open>seekg(2)\<close>, the write of
  \<open>[8, 9]\<close> and a flush succeed and \<open>m_ppos\<close> is 2; the bytes are stored at disk
  offset 2, encrypted for offset 0, where \<open>m_ppos\<close> stood at the time of the write:
  \<open>[8, 10]\<close>, where the encryption at their own disk offset is \<open>[10, 12]\<close>. Reading
  them back from offset 2 gives \<open>[6, 7]\<close>.
\<close>

theorem write_after_seekg_encrypts_for_other_offset:
  "(let w = ContainerImageStream_flush
              (ContainerImageStream_write (ContainerImageStream_seekg cipher_stream 2) [8, 9] 2)
    in \<not> badbit (m_stream w) \<and> \<not> failbit (m_stream w) \<and> pending (m_stream w) = []
       \<and> m_ppos cipher_stream = 0 \<and> m_ppos w = 2
       \<and> content (m_stream w) = [1, 2, 8, 10]
       \<and> take 2 (encrypt ShiftByteTransformer [8, 9] [0, 0] 0 2) = [8, 10]
       \<and> take 2 (encrypt ShiftByteTransformer [8, 9] [0, 0] 2 2) = [10, 12]
       \<and> decrypt ShiftByteTransformer [10, 12] [0, 0] 2 2 = [8, 9]
       \<and> snd (ContainerImageStream_read (ContainerImageStream_seekg w 2) [0, 0] 2) = [6, 7])"
proof -
  have e: "shiftEncrypt [8, 9] (replicate 2 0) 0 2 = [8, 10]"
    "shiftEncrypt [8, 9] [0, 0] 0 2 = [8, 10]"
    "shiftEncrypt [8, 9] [0, 0] 2 2 = [10, 12]"
    "shiftDecrypt [10, 12] [0, 0] 2 2 = [8, 9]"
    "shiftDecrypt [8, 10] [0, 0] 2 2 = [6, 7]"
    by (simp_all add: shiftEncrypt_def shiftDecrypt_def upt_rec numeral_2_eq_2)
  show ?thesis
    by (simp add: stream_defs stream_values on_host_def fstream_read_at_def fstream_write_at_def e)
qed

text \<open>
  C5, amended. On a host stream that is good before the call, its written bytes in
  front of its position:
  \<^item> after a write and the flush that follows it, if the host stream is not bad, the
    bytes stored on the host at the position that the host stream had at the time of the
    write are the encryption of the caller's bytes at \<open>m_ppos\<close>;
  \<^item> a read that leaves the host stream good hands the caller the decryption at
    \<open>m_gpos\<close> of the \<open>n\<close> bytes stored at the position of the host stream, and
    changes no stored byte; a read that ends bad leaves the caller's buffer alone;
  \<^item> when the write directly follows \<open>seekp(p)\<close>, and the read \<open>seekg(p)\<close>, and the
    host stream is good afterwards, that position is the disk offset \<open>p\<close>: the bytes
    stored at disk offset \<open>p\<close> are the encryption at \<open>p\<close>, and the bytes read from
    disk offset \<open>p\<close> are decrypted at \<open>p\<close>.
\<close>

theorem stream_transforms_at_position:
  assumes "\<not> badbit (m_stream cis)" and "\<not> failbit (m_stream cis)"
    and "length (pending (m_stream cis)) \<le> fpos (m_stream cis)"
  shows
   "(let w = ContainerImageStream_flush (ContainerImageStream_write cis buf n);
         c = take n (encrypt (m_byteTransformer cis) buf (replicate n 0) (m_ppos cis) (int n))
     in \<not> badbit (m_stream w) \<longrightarrow>
          pending (m_stream w) = []
          \<and> fstream_read_at (content (m_stream w)) (fpos (m_stream cis)) (length c) = c)
    \<and> (let (r, buf') = ContainerImageStream_read cis buf n;
           c = fstream_read_at (on_host (m_stream cis)) (fpos (m_stream cis)) n
       in (\<not> badbit (m_stream r) \<and> \<not> failbit (m_stream r) \<longrightarrow>
             length c = n
             \<and> buf' = decrypt (m_byteTransformer cis) c buf (m_gpos cis) (int n)
             \<and> on_host (m_stream r) = on_host (m_stream cis))
          \<and> (badbit (m_stream r) \<longrightarrow> buf' = buf))
    \<and> (let w = ContainerImageStream_flush
                  (ContainerImageStream_write (ContainerImageStream_seekp cis (int p)) buf n);
           c = take n (encrypt (m_byteTransformer cis) buf (replicate n 0) (int p) (int n))
       in \<not> badbit (m_stream w) \<and> \<not> failbit (m_stream w) \<longrightarrow>
            pending (m_stream w) = []
            \<and> fstream_read_at (content (m_stream w)) p (length c) = c)
    \<and> (let (r, buf') = ContainerImageStream_read (ContainerImageStream_seekg cis (int p)) buf n;
           c = fstream_read_at (on_host (m_stream cis)) p n
       in \<not> badbit (m_stream r) \<and> \<not> failbit (m_stream r) \<longrightarrow>
            length c = n
            \<and> buf' = decrypt (m_byteTransformer cis) c buf (int p) (int n))"
proof -
  let ?s = "m_stream cis"
  let ?t = "m_byteTransformer cis"
  define c0 where "c0 = take n (encrypt ?t buf (replicate n 0) (m_ppos cis) (int n))"
  define cp where "cp = take n (encrypt ?t buf (replicate n 0) (int p) (int n))"
  have 2: "length (fstream_read_at (on_host s) (fpos s) n) = n
      \<and> snd (ContainerImageStream_read x buf n)
          = decrypt (m_byteTransformer x) (fstream_read_at (on_host s) (fpos s) n) buf
              (m_gpos x) (int n)
      \<and> on_host (fst (fstream_read s n)) = on_host s"
    if "m_stream x = s" "\<not> badbit (fst (fstream_read s n))" "\<not> failbit (fst (fstream_read s n))"
    for x s
    using read_good [OF that(2,3)] that by (simp add: buffer_of_read)
  let ?w0 = "ContainerImageStream_flush (ContainerImageStream_write cis buf n)"
  have w0: "m_stream ?w0 = fstream_flush (fstream_write ?s c0)"
    by (simp add: ContainerImageStream_flush_def stream_of_write c0_def)
  have c1: "\<not> badbit (m_stream ?w0) \<longrightarrow>
      pending (m_stream ?w0) = []
      \<and> fstream_read_at (content (m_stream ?w0)) (fpos ?s) (length c0) = c0"
    unfolding w0 using write_flush_stores [OF assms, of c0] by blast
  have c2: "(\<not> badbit (m_stream (fst (ContainerImageStream_read cis buf n)))
        \<and> \<not> failbit (m_stream (fst (ContainerImageStream_read cis buf n))) \<longrightarrow>
        length (fstream_read_at (on_host ?s) (fpos ?s) n) = n
        \<and> snd (ContainerImageStream_read cis buf n)
            = decrypt ?t (fstream_read_at (on_host ?s) (fpos ?s) n) buf (m_gpos cis) (int n)
        \<and> on_host (m_stream (fst (ContainerImageStream_read cis buf n))) = on_host ?s)
      \<and> (badbit (m_stream (fst (ContainerImageStream_read cis buf n)))
           \<longrightarrow> snd (ContainerImageStream_read cis buf n) = buf)"
    using 2 [of cis ?s] by (simp add: stream_of_read buffer_of_read)
  let ?sp = "fstream_seek ?s (int p)"
  let ?xp = "ContainerImageStream_seekp cis (int p)"
  let ?xg = "ContainerImageStream_seekg cis (int p)"
  have xp: "m_stream ?xp = ?sp" "m_byteTransformer ?xp = ?t"
    "\<not> badbit ?sp \<Longrightarrow> m_ppos ?xp = int p"
    and xg: "m_stream ?xg = ?sp" "m_byteTransformer ?xg = ?t"
    "\<not> badbit ?sp \<Longrightarrow> m_gpos ?xg = int p"
    by (simp_all add: ContainerImageStream_seekp_def ContainerImageStream_seekg_def Let_def)
  have sk: "on_host ?sp = on_host ?s \<and> pending ?sp = [] \<and> fpos ?sp = p"
    if "\<not> badbit ?sp" "\<not> failbit ?sp"
    using on_host_seek [OF seek_good(1) [OF that]] by simp
  let ?w = "ContainerImageStream_flush (ContainerImageStream_write ?xp buf n)"
  have c3: "\<not> badbit (m_stream ?w) \<and> \<not> failbit (m_stream ?w) \<longrightarrow>
      pending (m_stream ?w) = [] \<and> fstream_read_at (content (m_stream ?w)) p (length cp) = cp"
  proof (intro impI, elim conjE)
    define c where "c = take n (encrypt ?t buf (replicate n 0) (m_ppos ?xp) (int n))"
    assume b: "\<not> badbit (m_stream ?w)" and f: "\<not> failbit (m_stream ?w)"
    have w: "m_stream ?w = fstream_flush (fstream_write ?sp c)"
      by (simp add: ContainerImageStream_flush_def stream_of_write xp c_def)
    have g: "\<not> badbit ?sp" "\<not> failbit ?sp"
      using f not_good_stays(1) [of ?sp c] unfolding w by blast+
    note k = sk [OF g]
    have "m_ppos ?xp = int p" using g(1) by (rule xp(3))
    then have cc: "c = cp" by (simp add: c_def cp_def)
    have "length (pending ?sp) \<le> fpos ?sp" using k by simp
    from write_flush_stores [OF g this, of c] b
    show "pending (m_stream ?w) = [] \<and> fstream_read_at (content (m_stream ?w)) p (length cp) = cp"
      unfolding w using k by (simp add: cc)
  qed
  let ?r = "fst (ContainerImageStream_read ?xg buf n)"
  have c4: "\<not> badbit (m_stream ?r) \<and> \<not> failbit (m_stream ?r) \<longrightarrow>
      length (fstream_read_at (on_host ?s) p n) = n
      \<and> snd (ContainerImageStream_read ?xg buf n)
          = decrypt ?t (fstream_read_at (on_host ?s) p n) buf (int p) (int n)"
  proof (intro impI, elim conjE)
    assume b: "\<not> badbit (m_stream ?r)" and f: "\<not> failbit (m_stream ?r)"
    have r: "m_stream ?r = fst (fstream_read ?sp n)"
      by (simp add: stream_of_read xg)
    have g: "\<not> badbit ?sp" "\<not> failbit ?sp"
      using f not_good_stays(2) [of ?sp n] unfolding r by blast+
    note k = sk [OF g]
    have gp: "m_gpos ?xg = int p" using g(1) by (rule xg(3))
    show "length (fstream_read_at (on_host ?s) p n) = n
        \<and> snd (ContainerImageStream_read ?xg buf n)
            = decrypt ?t (fstream_read_at (on_host ?s) p n) buf (int p) (int n)"
      using 2 [of ?xg ?sp] b f k unfolding r by (simp add: xg gp)
  qed
  show ?thesis
    unfolding Let_def case_prod_unfold
    using c1 c2 c3 c4 unfolding c0_def cp_def by blast
qed

theorem stream_transforms_at_position_witness:
  "fstream_read_at (content (m_stream (ContainerImageStream_flush
       (ContainerImageStream_write (ContainerImageStream_seekp cipher_stream 2) [8, 9] 2)))) 2 2
     = [10, 12]
   \<and> snd (ContainerImageStream_read (ContainerImageStream_seekg (ContainerImageStream_flush
       (ContainerImageStream_write (ContainerImageStream_seekp cipher_stream 2) [8, 9] 2)) 2)
       [0, 0] 2) = [8, 9]
   \<and> fstream_read_at (content (m_stream (ContainerImageStream_flush
       (ContainerImageStream_write demo_stream [8, 9] 2)))) 1 2 = [8, 9]
   \<and> snd (ContainerImageStream_read demo_stream [0, 0] 2) = [2, 3]
   \<and> snd (ContainerImageStream_read broken_stream [0, 0] 2) = [0, 0]"
proof -
  define w where "w = ContainerImageStream_flush
       (ContainerImageStream_write (ContainerImageStream_seekp cipher_stream 2) [8, 9] 2)"
  have e: "shiftEncrypt [8, 9] (replicate 2 0) 2 2 = [10, 12]"
    "shiftDecrypt [10, 12] [0, 0] 2 2 = [8, 9]"
    "doDecrypt [2, 3] [0, 0] 1 2 = [2, 3]"
    by (simp_all add: shiftEncrypt_def shiftDecrypt_def upt_rec numeral_2_eq_2
        doDecrypt_def null_copy)
  have wv: "w = cipher_stream\<lparr>m_stream := (m_stream cipher_stream)\<lparr>content := [1, 2, 10, 12],
      fpos := 4\<rparr>, m_ppos := 4\<rparr>"
    by (simp add: w_def stream_defs stream_values on_host_def fstream_write_at_def e)
  have g: "\<not> badbit (m_stream cipher_stream)" "\<not> failbit (m_stream cipher_stream)"
    "length (pending (m_stream cipher_stream)) \<le> fpos (m_stream cipher_stream)"
    "\<not> badbit (m_stream demo_stream)" "\<not> failbit (m_stream demo_stream)"
    "length (pending (m_stream demo_stream)) \<le> fpos (m_stream demo_stream)"
    "\<not> badbit (m_stream broken_stream)" "\<not> failbit (m_stream broken_stream)"
    "length (pending (m_stream broken_stream)) \<le> fpos (m_stream broken_stream)"
    "\<not> badbit (m_stream w)" "\<not> failbit (m_stream w)"
    "length (pending (m_stream w)) \<le> fpos (m_stream w)"
    by (simp_all add: wv stream_values)
  have 1: "fstream_read_at (content (m_stream w)) 2 2 = [10, 12]"
    using stream_transforms_at_position [OF g(1,2,3), of "[8, 9]" 2 2]
    by (simp add: wv fstream_read_at_def)
  have good: "\<not> badbit (m_stream (fst (ContainerImageStream_read (ContainerImageStream_seekg w 2) [0, 0] 2)))"
    "\<not> failbit (m_stream (fst (ContainerImageStream_read (ContainerImageStream_seekg w 2) [0, 0] 2)))"
    by (simp_all add: wv stream_defs stream_values on_host_def fstream_read_at_def
        fstream_write_at_def split: prod.split)
  have c: "fstream_read_at (on_host (m_stream w)) 2 2 = [10, 12]"
    by (simp add: wv stream_values on_host_def fstream_read_at_def fstream_write_at_def)
  have t: "decrypt (m_byteTransformer w) [10, 12] [0, 0] 2 2 = [8, 9]"
    by (simp add: wv stream_values e)
  have 2: "snd (ContainerImageStream_read (ContainerImageStream_seekg w 2) [0, 0] 2) = [8, 9]"
    using stream_transforms_at_position [OF g(10,11,12), of "[0, 0]" 2 2,
        unfolded Let_def case_prod_unfold, THEN conjunct2, THEN conjunct2, THEN conjunct2]
      good c t
    by simp
  have 3: "fstream_read_at (content (m_stream (ContainerImageStream_flush
       (ContainerImageStream_write demo_stream [8, 9] 2)))) 1 2 = [8, 9]"
    using stream_transforms_at_position [OF g(4,5,6), of "[8, 9]" 2 2]
    by (simp add: stream_defs stream_values on_host_def fstream_read_at_def
        fstream_write_at_def demo_cipher)
  have 4: "snd (ContainerImageStream_read demo_stream [0, 0] 2) = [2, 3]"
    using stream_transforms_at_position [OF g(4,5,6), of "[0, 0]" 2 2]
    by (simp add: stream_defs stream_values on_host_def fstream_read_at_def
        fstream_write_at_def e split: prod.splits)
  have 5: "snd (ContainerImageStream_read broken_stream [0, 0] 2) = [0, 0]"
    using stream_transforms_at_position [OF g(7,8,9), of "[0, 0]" 2 2]
    by (simp add: stream_defs stream_values split: prod.splits)
  show ?thesis using 1 2 3 4 5 by (simp add: w_def)
qed

section \<open>Where the blocks lie\<close>

lemma wf_pos:
  assumes "image_ok N img" and "wf_block N b"
  shows "unat (m_offset b) = HDR (unat N) + unat (m_index b) * FILE_BLOCK_SIZE"
    and "unat (m_offset b) + FILE_BLOCK_SIZE \<le> length img"
    and "HDR (unat N) \<le> unat (m_offset b)"
proof -
  have i: "unat (m_index b) < unat N" and o: "m_offset b = getOffsetOfFileBlock (m_index b) N"
    using assms(2) by (simp_all add: wf_block_def)
  have l: "HDR (unat N) + unat N * FILE_BLOCK_SIZE \<le> length img" "length img < 2 ^ 63"
    using assms(1) by (simp_all add: image_ok_def)
  show p: "unat (m_offset b) = HDR (unat N) + unat (m_index b) * FILE_BLOCK_SIZE"
    unfolding o using i l by (intro block_offset_unat) simp_all
  have "(unat (m_index b) + 1) * FILE_BLOCK_SIZE \<le> unat N * FILE_BLOCK_SIZE"
    using i by (intro mult_le_mono1) simp
  then show "unat (m_offset b) + FILE_BLOCK_SIZE \<le> length img"
    using p l by (simp add: algebra_simps)
  show "HDR (unat N) \<le> unat (m_offset b)" using p by simp
qed

lemma regions_disjoint:
  assumes "image_ok N img" and "wf_block N b" and "wf_block N c" and "m_index b \<noteq> m_index c"
  shows "unat (m_offset b) + FILE_BLOCK_SIZE \<le> unat (m_offset c)
       \<or> unat (m_offset c) + FILE_BLOCK_SIZE \<le> unat (m_offset b)"
proof -
  have "unat (m_index b) \<noteq> unat (m_index c)"
    using assms(4) by (simp add: word_unat_eq_iff)
  then consider "unat (m_index b) + 1 \<le> unat (m_index c)" | "unat (m_index c) + 1 \<le> unat (m_index b)"
    by linarith
  then show ?thesis
  proof cases
    case 1
    then have "(unat (m_index b) + 1) * FILE_BLOCK_SIZE \<le> unat (m_index c) * FILE_BLOCK_SIZE"
      by (intro mult_le_mono1)
    then show ?thesis
      using wf_pos(1) [OF assms(1,2)] wf_pos(1) [OF assms(1,3)] by (simp add: algebra_simps)
  next
    case 2
    then have "(unat (m_index c) + 1) * FILE_BLOCK_SIZE \<le> unat (m_index b) * FILE_BLOCK_SIZE"
      by (intro mult_le_mono1)
    then show ?thesis
      using wf_pos(1) [OF assms(1,2)] wf_pos(1) [OF assms(1,3)] by (simp add: algebra_simps)
  qed
qed

lemma read_write_apart:
  assumes "p + length bs \<le> q \<or> (q + n \<le> p \<and> q + n \<le> length img)"
  shows "fstream_read_at (fstream_write_at img p bs) q n = fstream_read_at img q n"
  using assms read_write_after [of p bs q img n] read_write_before [of q n p img bs] by blast

lemma length_write_inside:
  "p + length bs \<le> length img \<Longrightarrow> length (fstream_write_at img p bs) = length img"
  by simp

lemma FileBlock_write_frame:
  assumes "unat (m_offset fb) + FILE_BLOCK_SIZE \<le> length img" and "length img < 2 ^ 63"
    and "unat (m_extraOffset fb) + length buf \<le> payloadCapacity"
    and "q + n \<le> unat (m_offset fb) \<or> unat (m_offset fb) + FILE_BLOCK_SIZE \<le> q"
  shows "fstream_read_at (fst (snd (FileBlock_write fb img buf))) q n = fstream_read_at img q n"
    and "length (fst (snd (FileBlock_write fb img buf))) = length img"
proof -
  let ?p = "unat (m_offset fb)"
  have b: "?p + FILE_BLOCK_META + unat (m_extraOffset fb) + length buf \<le> ?p + FILE_BLOCK_SIZE"
    using assms(3) by (simp add: payloadCapacity_def FILE_BLOCK_SIZE_def FILE_BLOCK_META_def)
  have nw: "?p + FILE_BLOCK_META + unat (m_extraOffset fb) + length buf < 2 ^ 63"
    using b assms(1,2) by linarith
  let ?i1 = "fstream_write_at img (?p + FILE_BLOCK_META + unat (m_extraOffset fb)) buf"
  let ?i2 = "fstream_write_at ?i1 ?p (convertInt32ToInt4Array (m_bytesWritten fb + of_nat (length buf)))"
  let ?i3 = "fstream_write_at ?i2 (?p + 4) (convertUInt64ToInt8Array (m_index fb))"
  have l1: "length ?i1 = length img" using b assms(1) by simp
  have l2: "length ?i2 = length img"
    using l1 assms(1) by (simp add: FILE_BLOCK_SIZE_def)
  have l3: "length ?i3 = length img"
    using l2 assms(1) by (simp add: FILE_BLOCK_SIZE_def)
  have r1: "fstream_read_at ?i1 q n = fstream_read_at img q n"
    using assms(1,4) b by (intro read_write_apart) auto
  have r2: "fstream_read_at ?i2 q n = fstream_read_at ?i1 q n"
    using assms(1,4) l1 by (intro read_write_apart) (auto simp add: FILE_BLOCK_SIZE_def)
  have r3: "fstream_read_at ?i3 q n = fstream_read_at ?i2 q n"
    using assms(1,4) l2 by (intro read_write_apart) (auto simp add: FILE_BLOCK_SIZE_def)
  show "fstream_read_at (fst (snd (FileBlock_write fb img buf))) q n = fstream_read_at img q n"
    using r1 r2 r3 by (simp add: FileBlock_write_image [OF nw] Let_def)
  show "length (fst (snd (FileBlock_write fb img buf))) = length img"
    using l2 l3 by (simp add: FileBlock_write_image [OF nw] Let_def)
qed

section \<open>What an operation changes\<close>

lemma only_changes_refl: "only_changes img img p len"
  by (simp add: only_changes_def)

lemma only_changes_write:
  "p + length bs \<le> length img \<Longrightarrow> only_changes img (fstream_write_at img p bs) p (length bs)"
  by (auto simp add: only_changes_def intro!: read_write_apart)

lemma only_changes_widen:
  "only_changes img img' p len \<Longrightarrow> p' \<le> p \<Longrightarrow> p + len \<le> p' + len' \<Longrightarrow>
   only_changes img img' p' len'"
  by (auto simp add: only_changes_def)

lemma only_changes_trans:
  "only_changes a b p len \<Longrightarrow> only_changes b c p len \<Longrightarrow> only_changes a c p len"
  by (auto simp add: only_changes_def)

lemma only_changes_length: "only_changes img img' p len \<Longrightarrow> length img' = length img"
  by (simp add: only_changes_def)

lemma only_changes_read:
  "only_changes img img' p len \<Longrightarrow> q + n \<le> p \<or> p + len \<le> q \<Longrightarrow>
   fstream_read_at img' q n = fstream_read_at img q n"
  unfolding only_changes_def by blast

lemma only_changes_write_in:
  "p' \<le> p \<Longrightarrow> p + length bs \<le> p' + len' \<Longrightarrow> p' + len' \<le> length img \<Longrightarrow>
   only_changes img (fstream_write_at img p bs) p' len'"
  by (rule only_changes_widen [OF only_changes_write]) simp_all

text \<open>What each operation changes.\<close>

lemma FileBlock_write_only_changes:
  assumes "unat (m_offset fb) + FILE_BLOCK_SIZE \<le> length img" and "length img < 2 ^ 63"
    and "unat (m_extraOffset fb) + length buf \<le> payloadCapacity"
  shows "only_changes img (fst (snd (FileBlock_write fb img buf))) (unat (m_offset fb)) FILE_BLOCK_SIZE"
  unfolding only_changes_def
  using FileBlock_write_frame [OF assms] by blast

lemma setNext_image:
  assumes "unat (m_offset fb) + FILE_BLOCK_SIZE \<le> length img" and "length img < 2 ^ 63"
  shows "snd (setNext fb img k) = fstream_write_at img (unat (m_offset fb) + 4) (convertUInt64ToInt8Array k)"
proof -
  have "unat (m_offset fb) + 4 < 2 ^ 64"
    using assms by (simp add: FILE_BLOCK_SIZE_def)
  then have "unat (m_offset fb + 4) = unat (m_offset fb) + 4"
    by (simp add: unat_word_ariths)
  then show ?thesis by (simp add: setNext_def)
qed

lemma setNext_only_changes:
  assumes "unat (m_offset fb) + FILE_BLOCK_SIZE \<le> length img" and "length img < 2 ^ 63"
  shows "only_changes img (snd (setNext fb img k)) (unat (m_offset fb) + 4) 8"
  unfolding setNext_image [OF assms]
  using assms(1) only_changes_write [of "unat (m_offset fb) + 4" "convertUInt64ToInt8Array k" img]
  by (simp add: FILE_BLOCK_SIZE_def)

lemma setNext_header:
  assumes "unat (m_offset fb) + FILE_BLOCK_SIZE \<le> length img" and "length img < 2 ^ 63"
  shows "headerNext (snd (setNext fb img k)) (unat (m_offset fb)) = k"
    and "headerBytesWritten (snd (setNext fb img k)) (unat (m_offset fb))
         = headerBytesWritten img (unat (m_offset fb))"
proof -
  show "headerNext (snd (setNext fb img k)) (unat (m_offset fb)) = k"
    unfolding setNext_image [OF assms] headerNext_def
    using read_write_same [of img "unat (m_offset fb) + 4" "convertUInt64ToInt8Array k"] by simp
  show "headerBytesWritten (snd (setNext fb img k)) (unat (m_offset fb))
         = headerBytesWritten img (unat (m_offset fb))"
    unfolding headerBytesWritten_def
    using only_changes_read [OF setNext_only_changes [OF assms], of "unat (m_offset fb)" 4 k] by simp
qed

lemma register_image:
  "48 + unat k div 8 < length img \<Longrightarrow>
   updateVolumeBitmapWithOne img k N =
     fstream_write_at img (48 + unat k div 8) [img ! (48 + unat k div 8) OR push_bit (unat k mod 8) 1]"
  by (simp add: updateVolumeBitmapWithOne_def read_one_byte)

lemma register_only_changes:
  assumes "48 + unat k div 8 < length img"
  shows "only_changes img (updateVolumeBitmapWithOne img k N) (48 + unat k div 8) 1"
  unfolding register_image [OF assms]
  using assms only_changes_write [of "48 + unat k div 8" "[x]" img for x] by simp

section \<open>The chain under block writes and links\<close>

lemma read_split:
  "fstream_read_at img q (a + n) = fstream_read_at img q a @ fstream_read_at img (q + a) n"
  by (simp add: fstream_read_at_def take_add add.commute)

lemma FileBlock_write_payload:
  assumes "unat (m_offset fb) + FILE_BLOCK_SIZE \<le> length img" and "length img < 2 ^ 63"
    and "unat (m_extraOffset fb) + length buf \<le> payloadCapacity"
  shows "fstream_read_at (fst (snd (FileBlock_write fb img buf)))
           (unat (m_offset fb) + FILE_BLOCK_META + unat (m_extraOffset fb)) (length buf) = buf"
    and "fstream_read_at (fst (snd (FileBlock_write fb img buf)))
           (unat (m_offset fb) + FILE_BLOCK_META) (unat (m_extraOffset fb))
         = fstream_read_at img (unat (m_offset fb) + FILE_BLOCK_META) (unat (m_extraOffset fb))"
proof -
  let ?p = "unat (m_offset fb)"
  let ?e = "unat (m_extraOffset fb)"
  have b: "?p + FILE_BLOCK_META + ?e + length buf \<le> ?p + FILE_BLOCK_SIZE"
    using assms(3) by (simp add: payloadCapacity_def FILE_BLOCK_SIZE_def FILE_BLOCK_META_def)
  have nw: "?p + FILE_BLOCK_META + ?e + length buf < 2 ^ 63"
    using b assms(1,2) by linarith
  let ?i1 = "fstream_write_at img (?p + FILE_BLOCK_META + ?e) buf"
  let ?i2 = "fstream_write_at ?i1 ?p (convertInt32ToInt4Array (m_bytesWritten fb + of_nat (length buf)))"
  let ?i3 = "fstream_write_at ?i2 (?p + 4) (convertUInt64ToInt8Array (m_index fb))"
  have r2: "fstream_read_at ?i2 q n = fstream_read_at ?i1 q n" if "?p + FILE_BLOCK_META \<le> q" for q n
    using that by (intro read_write_after) (simp add: FILE_BLOCK_META_def)
  have r3: "fstream_read_at ?i3 q n = fstream_read_at ?i2 q n" if "?p + FILE_BLOCK_META \<le> q" for q n
    using that by (intro read_write_after) (simp add: FILE_BLOCK_META_def)
  have img': "fstream_read_at (fst (snd (FileBlock_write fb img buf))) q n = fstream_read_at ?i1 q n"
    if "?p + FILE_BLOCK_META \<le> q" for q n
    using r2 [OF that] r3 [OF that] by (simp add: FileBlock_write_image [OF nw] Let_def)
  show "fstream_read_at (fst (snd (FileBlock_write fb img buf)))
           (?p + FILE_BLOCK_META + ?e) (length buf) = buf"
    by (simp add: img')
  have "fstream_read_at ?i1 (?p + FILE_BLOCK_META) ?e = fstream_read_at img (?p + FILE_BLOCK_META) ?e"
    using b assms(1) by (intro read_write_before) simp_all
  then show "fstream_read_at (fst (snd (FileBlock_write fb img buf))) (?p + FILE_BLOCK_META) ?e
         = fstream_read_at img (?p + FILE_BLOCK_META) ?e"
    by (simp add: img')
qed

lemma linked_nonempty: "linked bs \<Longrightarrow> bs \<noteq> []"
  by auto

lemma linked_last: "linked bs \<Longrightarrow> m_next (last bs) = m_index (last bs)"
  by (induction bs rule: linked.induct) auto

lemma linked_replace_last:
  "linked bs \<Longrightarrow> m_index b = m_index (last bs) \<Longrightarrow> m_next b = m_index b \<Longrightarrow>
   linked (butlast bs @ [b])"
  by (induction bs rule: linked.induct) auto

lemma linked_extend:
  "linked bs \<Longrightarrow> m_index b = m_index (last bs) \<Longrightarrow> m_next b = m_index nb \<Longrightarrow>
   m_next nb = m_index nb \<Longrightarrow> linked (butlast bs @ [b, nb])"
  by (induction bs rule: linked.induct) auto

lemma linked_self_loops:
  "linked bs \<Longrightarrow> distinct (map m_index bs) \<Longrightarrow>
   filter (\<lambda>b. m_next b = m_index b) bs = [last bs]"
  by (induction bs rule: linked.induct) auto

lemma coherent_only_changes:
  assumes "only_changes img img' p len"
    and "unat (m_offset c) + FILE_BLOCK_META \<le> p \<or> p + len \<le> unat (m_offset c)"
  shows "coherent img' c = coherent img c"
proof -
  have "fstream_read_at img' (unat (m_offset c)) 4 = fstream_read_at img (unat (m_offset c)) 4"
    using assms(2) by (intro only_changes_read [OF assms(1)]) (auto simp add: FILE_BLOCK_META_def)
  moreover have "fstream_read_at img' (unat (m_offset c) + 4) 8
                 = fstream_read_at img (unat (m_offset c) + 4) 8"
    using assms(2) by (intro only_changes_read [OF assms(1)]) (auto simp add: FILE_BLOCK_META_def)
  ultimately show ?thesis
    by (simp add: coherent_def headerBytesWritten_def headerNext_def)
qed

lemma image_ok_only_changes: "only_changes img img' p len \<Longrightarrow> image_ok N img' = image_ok N img"
  by (simp add: image_ok_def only_changes_def)

lemma coherent_other_block:
  assumes "image_ok N img" and "wf_block N b" and "wf_block N c" and "m_index c \<noteq> m_index b"
    and "only_changes img img' (unat (m_offset b)) FILE_BLOCK_SIZE"
  shows "coherent img' c = coherent img c"
proof -
  have "unat (m_offset c) + FILE_BLOCK_SIZE \<le> unat (m_offset b)
       \<or> unat (m_offset b) + FILE_BLOCK_SIZE \<le> unat (m_offset c)"
    using regions_disjoint [OF assms(1,3,2,4)] .
  then show ?thesis
    by (intro coherent_only_changes [OF assms(5)])
       (auto simp add: FILE_BLOCK_SIZE_def FILE_BLOCK_META_def)
qed

lemma writeLast_result:
  assumes "chain_inv N (bs, img)" and "unat e + length buf \<le> payloadCapacity"
  shows "\<exists>b' img'. writeLast e buf (bs, img) = (butlast bs @ [b'], img')
     \<and> chain_inv N (butlast bs @ [b'], img')
     \<and> m_index b' = m_index (last bs) \<and> m_offset b' = m_offset (last bs)
     \<and> m_bytesWritten b' = m_bytesWritten (last bs) + of_nat (length buf)
     \<and> only_changes img img' (unat (m_offset (last bs))) FILE_BLOCK_SIZE
     \<and> fstream_read_at img' (unat (m_offset (last bs)) + FILE_BLOCK_META + unat e) (length buf)
         = buf
     \<and> fstream_read_at img' (unat (m_offset (last bs)) + FILE_BLOCK_META) (unat e)
         = fstream_read_at img (unat (m_offset (last bs)) + FILE_BLOCK_META) (unat e)"
proof -
  have ok: "image_ok N img" and all: "list_all (\<lambda>b. wf_block N b \<and> coherent img b) bs"
    and dist: "distinct (map m_index bs)" and lk: "linked bs"
    using assms(1) by (simp_all add: chain_inv_def)
  have ne: "bs \<noteq> []" using lk by (rule linked_nonempty)
  define L where "L = last bs"
  define fb where "fb = setExtraOffset L e"
  define b' where "b' = fst (FileBlock_write fb img buf)"
  define img' where "img' = fst (snd (FileBlock_write fb img buf))"
  have bs: "bs = butlast bs @ [L]" using ne by (simp add: L_def)
  have Lin: "L \<in> set bs" using ne by (simp add: L_def)
  have wfL: "wf_block N L" and cohL: "coherent img L"
    using all Lin by (simp_all add: list_all_iff)
  have loop: "m_next L = m_index L" using lk by (simp add: L_def linked_last)
  have fbf: "m_offset fb = m_offset L" "m_index fb = m_index L" "m_extraOffset fb = e"
    "m_next fb = m_next L" "m_totalBlocks fb = m_totalBlocks L"
    "m_bytesWritten fb = m_bytesWritten L"
    by (simp_all add: fb_def setExtraOffset_def)
  have pos: "unat (m_offset fb) + FILE_BLOCK_SIZE \<le> length img"
    using wf_pos(2) [OF ok wfL] by (simp add: fbf)
  have len: "length img < 2 ^ 63" using ok by (simp add: image_ok_def)
  have ex: "unat (m_extraOffset fb) + length buf \<le> payloadCapacity"
    using assms(2) by (simp add: fbf)
  have land: "unat (m_offset fb) + FILE_BLOCK_META + unat (m_extraOffset fb) + length buf < 2 ^ 63"
    using pos len ex by (simp add: payloadCapacity_def FILE_BLOCK_SIZE_def FILE_BLOCK_META_def)
  have oc: "only_changes img img' (unat (m_offset L)) FILE_BLOCK_SIZE"
    using FileBlock_write_only_changes [OF pos len ex] by (simp add: img'_def fbf)
  have w: "writeLast e buf (bs, img) = (butlast bs @ [b'], img')"
    by (simp add: writeLast_def b'_def img'_def fb_def L_def split: prod.splits)
  have b'f: "m_index b' = m_index L" "m_offset b' = m_offset L" "m_totalBlocks b' = m_totalBlocks L"
    "m_next b' = m_index L" "m_bytesWritten b' = m_bytesWritten L + of_nat (length buf)"
    using loop by (simp_all add: b'_def FileBlock_write_memory fbf)
  have wfb': "wf_block N b'" using wfL by (simp add: wf_block_def b'f)
  have cohb': "coherent img' b'"
  proof -
    have s: "headerBytesWritten img' (unat (m_offset L)) = m_bytesWritten b'"
      using FileBlock_write_disk_size [OF land]
      by (simp add: img'_def b'f fbf)
    have n: "headerNext img' (unat (m_offset L)) = m_index L"
    proof (cases "length buf < FILE_BLOCK_SIZE - FILE_BLOCK_META \<or> 0 < m_extraOffset fb")
      case True
      then show ?thesis
        using FileBlock_write_disk_next_set [OF True land] by (simp add: img'_def fbf)
    next
      case False
      have "headerNext img' (unat (m_offset fb)) = headerNext img (unat (m_offset fb))"
        unfolding img'_def using pos
        by (intro FileBlock_write_disk_next_kept [OF False _ land])
           (simp add: FILE_BLOCK_SIZE_def FILE_BLOCK_META_def)
      then show ?thesis using cohL loop by (simp add: fbf coherent_def)
    qed
    show ?thesis using s n by (simp add: coherent_def b'f)
  qed
  have others: "wf_block N c \<and> coherent img' c" if "c \<in> set (butlast bs)" for c
  proof -
    have c: "c \<in> set bs" using that by (rule in_set_butlastD)
    have wfc: "wf_block N c" and cohc: "coherent img c"
      using all c by (simp_all add: list_all_iff)
    have "distinct (map m_index (butlast bs @ [L]))" using dist bs by simp
    then have "m_index L \<notin> m_index ` set (butlast bs)" by simp
    then have "m_index c \<noteq> m_index L" using that by (metis imageI)
    then have "coherent img' c = coherent img c"
      using coherent_other_block [OF ok wfL wfc _ oc] by simp
    then show ?thesis using wfc cohc by simp
  qed
  have d': "distinct (map m_index (butlast bs @ [b']))"
  proof -
    have "map m_index (butlast bs @ [b']) = map m_index (butlast bs @ [L])"
      by (simp add: b'f)
    then show ?thesis using dist bs by simp
  qed
  have l': "linked (butlast bs @ [b'])"
    using lk by (intro linked_replace_last) (simp_all add: b'f L_def)
  have inv': "chain_inv N (butlast bs @ [b'], img')"
    using ok oc wfb' cohb' others d' l'
    by (simp add: chain_inv_def image_ok_only_changes [OF oc] list_all_iff)
  have pay: "fstream_read_at img' (unat (m_offset L) + FILE_BLOCK_META + unat e) (length buf) = buf"
    "fstream_read_at img' (unat (m_offset L) + FILE_BLOCK_META) (unat e)
       = fstream_read_at img (unat (m_offset L) + FILE_BLOCK_META) (unat e)"
    using FileBlock_write_payload [OF pos len ex] by (simp_all add: img'_def fbf)
  show ?thesis
    using w inv' b'f(1,2,5) oc pay unfolding L_def by blast
qed

lemma chain_inv_writeLast:
  assumes "chain_inv N (bs, img)" and "unat e + length buf \<le> payloadCapacity"
  shows "chain_inv N (writeLast e buf (bs, img))"
  using writeLast_result [OF assms] by auto

lemma newBlock_Inr:
  "newBlock img N k =
     Inr (\<lparr>m_totalBlocks = N, m_index = k, m_bytesWritten = 0, m_initialBytesWritten = 0,
            m_next = k, m_offset = getOffsetOfFileBlock k N, m_extraOffset = 0\<rparr>,
          updateVolumeBitmapWithOne
            (fstream_write_at
               (fstream_write_at img (unat (getOffsetOfFileBlock k N)) (convertInt32ToInt4Array 0))
               (unat (getOffsetOfFileBlock k N) + 4) (convertUInt64ToInt8Array k)) k N)"
  by (simp add: newBlock_def FileBlock_new_Inr registerBlockWithVolumeBitmap_def)

lemma newBlock_props:
  assumes ok: "image_ok N img" and k: "unat k < unat N"
    and nb: "newBlock img N k = Inr (nb, img2)"
  shows "wf_block N nb" and "m_index nb = k" and "m_next nb = k" and "m_bytesWritten nb = 0"
    and "m_extraOffset nb = 0"
    and "\<exists>img1. only_changes img img1 (unat (m_offset nb)) FILE_BLOCK_META
              \<and> only_changes img1 img2 (48 + unat k div 8) 1"
    and "coherent img2 nb"
    and "image_ok N img2"
    and "isBlockInUse k N img2"
    and "\<And>j. j \<noteq> k \<Longrightarrow> unat j < unat N \<Longrightarrow> isBlockInUse j N img2 = isBlockInUse j N img"
proof -
  let ?p = "unat (getOffsetOfFileBlock k N)"
  let ?i1 = "fstream_write_at (fstream_write_at img ?p (convertInt32ToInt4Array 0)) (?p + 4)
               (convertUInt64ToInt8Array k)"
  have nbe: "nb = \<lparr>m_totalBlocks = N, m_index = k, m_bytesWritten = 0, m_initialBytesWritten = 0,
            m_next = k, m_offset = getOffsetOfFileBlock k N, m_extraOffset = 0\<rparr>"
    and i2: "img2 = updateVolumeBitmapWithOne ?i1 k N"
    using nb by (simp_all add: newBlock_Inr)
  show wf: "wf_block N nb" using k by (simp add: nbe wf_block_def)
  show "m_index nb = k" "m_next nb = k" "m_bytesWritten nb = 0" "m_extraOffset nb = 0"
    by (simp_all add: nbe)
  have off: "unat (m_offset nb) = ?p" by (simp add: nbe)
  have p: "?p + FILE_BLOCK_SIZE \<le> length img" "HDR (unat N) \<le> ?p"
    using wf_pos(2,3) [OF ok wf] by (simp_all add: off)
  have a: "only_changes img (fstream_write_at img ?p (convertInt32ToInt4Array 0)) ?p FILE_BLOCK_META"
    using p(1) by (intro only_changes_write_in) (simp_all add: FILE_BLOCK_SIZE_def FILE_BLOCK_META_def)
  have b: "only_changes (fstream_write_at img ?p (convertInt32ToInt4Array 0)) ?i1 ?p FILE_BLOCK_META"
    using p(1) by (intro only_changes_write_in) (simp_all add: FILE_BLOCK_SIZE_def FILE_BLOCK_META_def)
  have oc1: "only_changes img ?i1 ?p FILE_BLOCK_META"
    using a b by (rule only_changes_trans)
  have l1: "length ?i1 = length img" using oc1 by (rule only_changes_length)
  have byte: "48 + unat k div 8 < HDR (unat N)" using k by (rule bitmap_byte_below_HDR)
  then have byte1: "48 + unat k div 8 < length ?i1" using p l1 by linarith
  have oc2: "only_changes ?i1 img2 (48 + unat k div 8) 1"
    unfolding i2 using byte1 by (rule register_only_changes)
  show "\<exists>img1. only_changes img img1 (unat (m_offset nb)) FILE_BLOCK_META
              \<and> only_changes img1 img2 (48 + unat k div 8) 1"
    using oc1 oc2 off by auto
  have "coherent ?i1 nb"
    by (simp add: coherent_def nbe header_after_new)
  moreover have "coherent img2 nb = coherent ?i1 nb"
    using byte p(2) by (intro coherent_only_changes [OF oc2]) (simp add: off)
  ultimately show "coherent img2 nb" by simp
  have "image_ok N ?i1" using ok by (simp add: image_ok_only_changes [OF oc1])
  then show "image_ok N img2" by (simp add: image_ok_only_changes [OF oc2])
  show "isBlockInUse k N img2"
    unfolding i2 using byte1 by (rule register_sets_bit)
  show "isBlockInUse j N img2 = isBlockInUse j N img" if "j \<noteq> k" "unat j < unat N" for j
  proof -
    have "isBlockInUse j N img2 = isBlockInUse j N ?i1"
      unfolding i2 using byte1 that(1) by (rule register_keeps_other_bits)
    moreover have "48 + unat j div 8 < HDR (unat N)" using that(2) by (rule bitmap_byte_below_HDR)
    then have "fstream_read_at ?i1 (48 + unat j div 8) 1 = fstream_read_at img (48 + unat j div 8) 1"
      using p(2) by (intro only_changes_read [OF oc1]) simp
    then have "isBlockInUse j N ?i1 = isBlockInUse j N img"
      by (simp add: isBlockInUse_def)
    ultimately show ?thesis by simp
  qed
qed

lemma newBlock_coherent_other:
  assumes ok: "image_ok N img" and k: "unat k < unat N"
    and nb: "newBlock img N k = Inr (nb, img2)"
    and c: "wf_block N c" "m_index c \<noteq> k"
  shows "coherent img2 c = coherent img c"
proof -
  obtain img1 where oc1: "only_changes img img1 (unat (m_offset nb)) FILE_BLOCK_META"
    and oc2: "only_changes img1 img2 (48 + unat k div 8) 1"
    using newBlock_props(6) [OF ok k nb] by blast
  have wf: "wf_block N nb" and i: "m_index nb = k"
    using newBlock_props(1,2) [OF ok k nb] by simp_all
  have oc1': "only_changes img img1 (unat (m_offset nb)) FILE_BLOCK_SIZE"
    using oc1 by (rule only_changes_widen) (simp_all add: FILE_BLOCK_SIZE_def FILE_BLOCK_META_def)
  have 1: "coherent img1 c = coherent img c"
    using c(2) by (intro coherent_other_block [OF ok wf c(1) _ oc1']) (simp add: i)
  have "48 + unat k div 8 < HDR (unat N)" using k by (rule bitmap_byte_below_HDR)
  then have 2: "coherent img2 c = coherent img1 c"
    using wf_pos(3) [OF ok c(1)] by (intro coherent_only_changes [OF oc2]) simp
  show ?thesis using 1 2 by simp
qed

lemma linkNew_result:
  assumes inv: "chain_inv N (bs, img)" and k: "unat k < unat N" "k \<notin> set (map m_index bs)"
    and nb: "newBlock img N k = Inr (nb, img2)"
  shows "\<exists>b' img3. linkNew nb (bs, img2) = (butlast bs @ [b', nb], img3)
     \<and> chain_inv N (butlast bs @ [b', nb], img3)
     \<and> m_index b' = m_index (last bs) \<and> m_offset b' = m_offset (last bs)
     \<and> m_bytesWritten b' = m_bytesWritten (last bs)
     \<and> only_changes img2 img3 (unat (m_offset (last bs)) + 4) 8"
proof -
  have ok: "image_ok N img" and all: "list_all (\<lambda>b. wf_block N b \<and> coherent img b) bs"
    and dist: "distinct (map m_index bs)" and lk: "linked bs"
    using inv by (simp_all add: chain_inv_def)
  have ne: "bs \<noteq> []" using lk by (rule linked_nonempty)
  define L where "L = last bs"
  define b' where "b' = fst (setNext L img2 k)"
  define img3 where "img3 = snd (setNext L img2 k)"
  have bs: "bs = butlast bs @ [L]" using ne by (simp add: L_def)
  have Lin: "L \<in> set bs" using ne by (simp add: L_def)
  have wfL: "wf_block N L" and cohL: "coherent img L"
    using all Lin by (simp_all add: list_all_iff)
  note p = newBlock_props [OF ok k(1) nb]
  have ok2: "image_ok N img2" by (rule p(8))
  have Lk: "m_index L \<noteq> k" using k(2) Lin by auto
  have b'f: "m_index b' = m_index L" "m_offset b' = m_offset L" "m_totalBlocks b' = m_totalBlocks L"
    "m_next b' = k" "m_bytesWritten b' = m_bytesWritten L"
    by (simp_all add: b'_def setNext_def)
  have w: "linkNew nb (bs, img2) = (butlast bs @ [b', nb], img3)"
    by (simp add: linkNew_def b'_def img3_def L_def p(2) split: prod.splits)
  have pos: "unat (m_offset L) + FILE_BLOCK_SIZE \<le> length img2"
    using wf_pos(2) [OF ok2 wfL] .
  have len: "length img2 < 2 ^ 63" using ok2 by (simp add: image_ok_def)
  have oc: "only_changes img2 img3 (unat (m_offset L) + 4) 8"
    unfolding img3_def using pos len by (rule setNext_only_changes)
  then have ocL: "only_changes img2 img3 (unat (m_offset L)) FILE_BLOCK_SIZE"
    by (rule only_changes_widen) (simp_all add: FILE_BLOCK_SIZE_def)
  have ok3: "image_ok N img3" using ok2 by (simp add: image_ok_only_changes [OF oc])
  have cohL2: "coherent img2 L"
    using cohL newBlock_coherent_other [OF ok k(1) nb wfL Lk] by simp
  have wfb': "wf_block N b'" using wfL by (simp add: wf_block_def b'f)
  have cohb': "coherent img3 b'"
    using setNext_header [OF pos len, of k] cohL2
    by (simp add: coherent_def b'f img3_def)
  have cohnb: "coherent img3 nb"
  proof -
    have "coherent img3 nb = coherent img2 nb"
      using Lk by (intro coherent_other_block [OF ok2 wfL p(1) _ ocL]) (simp add: p(2))
    then show ?thesis using p(7) by simp
  qed
  have others: "wf_block N c \<and> coherent img3 c" if "c \<in> set (butlast bs)" for c
  proof -
    have c: "c \<in> set bs" using that by (rule in_set_butlastD)
    have wfc: "wf_block N c" and cohc: "coherent img c"
      using all c by (simp_all add: list_all_iff)
    have "distinct (map m_index (butlast bs @ [L]))" using dist bs by simp
    then have "m_index L \<notin> m_index ` set (butlast bs)" by simp
    then have cL: "m_index c \<noteq> m_index L" using that by (metis imageI)
    have ck: "m_index c \<noteq> k" using k(2) c by auto
    have "coherent img2 c = coherent img c"
      by (rule newBlock_coherent_other [OF ok k(1) nb wfc ck])
    moreover have "coherent img3 c = coherent img2 c"
      by (rule coherent_other_block [OF ok2 wfL wfc cL ocL])
    ultimately show ?thesis using wfc cohc by simp
  qed
  have d': "distinct (map m_index (butlast bs @ [b', nb]))"
  proof -
    have "map m_index bs = map m_index (butlast bs) @ [m_index L]"
      using arg_cong [OF bs, of "map m_index"] by simp
    then have e: "map m_index (butlast bs @ [b', nb]) = map m_index bs @ [k]"
      by (simp add: b'f p(2))
    have "distinct (map m_index bs @ [k])" using dist k(2) by simp
    then show ?thesis by (simp only: e)
  qed
  have l': "linked (butlast bs @ [b', nb])"
    using lk by (intro linked_extend) (simp_all add: b'f L_def p(2,3))
  have inv': "chain_inv N (butlast bs @ [b', nb], img3)"
    using ok3 wfb' cohb' cohnb p(1) others d' l'
    by (simp add: chain_inv_def list_all_iff)
  show ?thesis
    using w inv' b'f(1,2,5) oc unfolding L_def by blast
qed

lemma chain_inv_linkNew:
  assumes "chain_inv N (bs, img)" and "unat k < unat N" and "k \<notin> set (map m_index bs)"
    and "newBlock img N k = Inr (nb, img2)"
  shows "chain_inv N (linkNew nb (bs, img2))"
  using linkNew_result [OF assms] by auto

lemma chain_inv_start:
  assumes ok: "image_ok N img" and st: "startChain img N k = Some st"
  shows "chain_inv N st"
proof -
  have k: "unat k < unat N" using st by (simp add: startChain_def split: if_splits)
  obtain nb img2 where nb: "newBlock img N k = Inr (nb, img2)" and s: "st = ([nb], img2)"
    using st k by (auto simp add: startChain_def split: sum.splits)
  note p = newBlock_props [OF ok k nb]
  show ?thesis using p(1,2,3,7,8) by (simp add: s chain_inv_def)
qed

lemma chain_inv_apply_op:
  "chain_inv N st \<Longrightarrow> apply_op N st x = Some st1 \<Longrightarrow> chain_inv N st1"
proof (induction N st x rule: apply_op.induct)
  case (1 N bs img extraOffset buf)
  then show ?case
    using chain_inv_writeLast [of N bs img extraOffset buf] by (auto split: if_splits)
next
  case (2 N bs img k)
  then show ?case
    using chain_inv_linkNew [of N bs img k] by (auto split: if_splits sum.splits)
qed

lemma chain_inv_run_ops:
  "chain_inv N st \<Longrightarrow> run_ops N st xs = Some st1 \<Longrightarrow> chain_inv N st1"
proof (induction xs arbitrary: st)
  case Nil
  then show ?case by simp
next
  case (Cons x xs)
  then show ?case
    by (auto split: option.splits dest: chain_inv_apply_op)
qed

lemma chain_inv_disk_self_loops:
  assumes "chain_inv N (bs, img)"
  shows "filter (\<lambda>b. headerNext img (unat (m_offset b)) = m_index b) bs
         = filter (\<lambda>b. m_next b = m_index b) bs"
proof (rule filter_cong [OF refl])
  fix b assume "b \<in> set bs"
  then have "coherent img b" using assms by (simp add: chain_inv_def list_all_iff)
  then show "(headerNext img (unat (m_offset b)) = m_index b) = (m_next b = m_index b)"
    by (simp add: coherent_def)
qed

text \<open>
  C4, amended. Start a chain with a new block whose \<open>next\<close> is its own index. After
  any sequence of block writes to the last block of the chain (within its payload) and of
  links of the last block, by \<open>setNext\<close>, to a new block whose \<open>next\<close> is its own
  index, exactly one block of the chain has \<open>next\<close> equal to its own index, and it is
  the last block; in the block objects and in the headers on disk.
\<close>

theorem chain_terminates_once:
  assumes "image_ok N img"
    and "startChain img N k = Some st0"
    and "run_ops N st0 ops = Some (bs, img')"
  shows "filter (\<lambda>b. m_next b = m_index b) bs = [last bs]
     \<and> filter (\<lambda>b. headerNext img' (unat (m_offset b)) = m_index b) bs = [last bs]
     \<and> linked bs \<and> distinct (map m_index bs)"
proof -
  have "chain_inv N st0" using assms(1,2) by (rule chain_inv_start)
  then have inv: "chain_inv N (bs, img')" using assms(3) by (rule chain_inv_run_ops)
  then have "linked bs" "distinct (map m_index bs)" by (simp_all add: chain_inv_def)
  then show ?thesis
    using chain_inv_disk_self_loops [OF inv] by (simp add: linked_self_loops)
qed

lemmas chain_defs = chain_image_def first_block_def second_block_def 
  getOffsetOfFileBlock_def HDR_def FILE_BLOCK_SIZE_def FILE_BLOCK_META_def
  fstream_read_at_def fstream_write_at_def headerBytesWritten_def headerNext_def
  convertInt4ArrayToInt32_def convertInt8ArrayToInt64_def
  convertInt32ToInt4Array_def convertUInt64ToInt8Array_def

text \<open>
  C4, as stated, fails. \<open>chain_image\<close> holds a well-formed chain of two blocks. One
  block write to the first block, two bytes at intra-block offset 2 (an overwrite in
  place), makes the first block point to itself as well: two blocks of the chain have
  \<open>next\<close> equal to their own index, in the objects and in the headers on disk.
\<close>

theorem overwrite_makes_second_terminator:
  "chain_inv 2 ([first_block, second_block], chain_image)
   \<and> (case FileBlock_write (setExtraOffset first_block 2) chain_image [9, 9] of
        (b, img, n) \<Rightarrow>
          filter (\<lambda>c. m_next c = m_index c) [b, second_block] = [b, second_block]
          \<and> filter (\<lambda>c. headerNext img (unat (m_offset c)) = m_index c) [b, second_block]
              = [b, second_block])"
  by (simp add: chain_inv_def image_ok_def wf_block_def coherent_def
      write_defs chain_defs upt_rec)

theorem chain_terminates_once_witness:
  "case startChain fresh_image 2 0 of
     None \<Rightarrow> False
   | Some st0 \<Rightarrow>
      (case run_ops 2 st0 [BlockWrite 0 (replicate 500 7), LinkNewBlock 1, BlockWrite 0 [1, 2, 3]] of
         None \<Rightarrow> False
       | Some (bs, img) \<Rightarrow>
           map m_index bs = [0, 1]
           \<and> filter (\<lambda>b. m_next b = m_index b) bs = [last bs]
           \<and> filter (\<lambda>b. headerNext img (unat (m_offset b)) = m_index b) bs = [last bs])"
proof -
  have ok: "image_ok 2 fresh_image"
    by (simp add: image_ok_def fresh_image_def HDR_def FILE_BLOCK_SIZE_def)
  obtain st0 where st0: "startChain fresh_image 2 0 = Some st0"
    by (simp add: startChain_def newBlock_Inr)
  obtain bs img where run:
    "run_ops 2 st0 [BlockWrite 0 (replicate 500 7), LinkNewBlock 1, BlockWrite 0 [1, 2, 3]]
       = Some (bs, img)" and ix: "map m_index bs = [0, 1]"
    using st0
    by (auto simp add: startChain_def newBlock_Inr writeLast_def linkNew_def write_defs
        setNext_def payloadCapacity_def FILE_BLOCK_SIZE_def FILE_BLOCK_META_def)
  show ?thesis
    unfolding st0 option.case run prod.case
    using chain_terminates_once [OF ok st0 run] ix by simp
qed

section \<open>The bitmap and the free blocks\<close>

lemma unat_of_nat_block: "i < unat (N :: 64 word) \<Longrightarrow> unat (of_nat i :: 64 word) = i"
proof -
  assume "i < unat N"
  moreover have "unat N < 2 ^ 64" using unsigned_less [of N] by simp
  ultimately have "i < 2 ^ 64" by linarith
  then show ?thesis by (simp add: unat_of_nat)
qed

lemma firstFree_Some:
  assumes "firstFree img N = Some k"
  shows "unat k < unat N" and "\<not> isBlockInUse k N img"
proof -
  obtain i where f: "find (\<lambda>i. \<not> isBlockInUse (of_nat i) N img) [0..<unat N] = Some i"
    and k: "k = of_nat i"
    using assms by (auto simp add: firstFree_def)
  have i: "i < unat N" "\<not> isBlockInUse (of_nat i) N img"
    using f by (auto simp add: find_Some_iff)
  show "unat k < unat N" using i(1) by (simp add: k unat_of_nat_block)
  show "\<not> isBlockInUse k N img" using i(2) by (simp add: k)
qed

lemma firstFree_exists:
  assumes "0 < freeBlocks img N"
  shows "\<exists>k. firstFree img N = Some k"
proof -
  have "filter (\<lambda>i. \<not> isBlockInUse (of_nat i) N img) [0..<unat N] \<noteq> []"
    using assms by (auto simp add: freeBlocks_def)
  then obtain i where "i \<in> set [0..<unat N]" "\<not> isBlockInUse (of_nat i) N img"
    by (metis (mono_tags, lifting) filter_False)
  then have "find (\<lambda>i. \<not> isBlockInUse (of_nat i) N img) [0..<unat N] \<noteq> None"
    by (auto simp add: find_None_iff)
  then show ?thesis by (auto simp add: firstFree_def)
qed

lemma freeBlocks_same:
  assumes "\<And>j. unat j < unat N \<Longrightarrow> isBlockInUse j N img' = isBlockInUse j N img"
  shows "freeBlocks img' N = freeBlocks img N"
proof -
  have "filter (\<lambda>i. \<not> isBlockInUse (of_nat i) N img') [0..<unat N]
        = filter (\<lambda>i. \<not> isBlockInUse (of_nat i) N img) [0..<unat N]"
    by (rule filter_cong [OF refl]) (simp add: assms unat_of_nat_block)
  then show ?thesis by (simp add: freeBlocks_def)
qed

lemma length_filter_flip:
  assumes "distinct xs" and "k \<in> set xs" and "P k" and "\<not> Q k"
    and "\<And>x. x \<in> set xs \<Longrightarrow> x \<noteq> k \<Longrightarrow> Q x = P x"
  shows "length (filter Q xs) + 1 = length (filter P xs)"
  using assms
proof (induction xs)
  case Nil
  then show ?case by simp
next
  case (Cons x xs)
  show ?case
  proof (cases "x = k")
    case True
    then have "k \<notin> set xs" using Cons.prems(1) by simp
    then have "filter Q xs = filter P xs"
      using Cons.prems(5) by (intro filter_cong [OF refl]) auto
    then show ?thesis using True Cons.prems(3,4) by simp
  next
    case False
    then have "length (filter Q xs) + 1 = length (filter P xs)"
      using Cons.prems by (intro Cons.IH) auto
    moreover have "Q x = P x" using False Cons.prems(5) by simp
    ultimately show ?thesis by simp
  qed
qed

lemma freeBlocks_take:
  assumes k: "unat k < unat N" and "\<not> isBlockInUse k N img" and "isBlockInUse k N img'"
    and same: "\<And>j. j \<noteq> k \<Longrightarrow> unat j < unat N \<Longrightarrow> isBlockInUse j N img' = isBlockInUse j N img"
  shows "freeBlocks img' N + 1 = freeBlocks img N"
  unfolding freeBlocks_def
proof (rule length_filter_flip [where k = "unat k"])
  show "distinct [0..<unat N]" by simp
  show "unat k \<in> set [0..<unat N]" using k by simp
  show "\<not> isBlockInUse (word_of_nat (unat k)) N img" using assms(2) by simp
  show "\<not> \<not> isBlockInUse (word_of_nat (unat k)) N img'" using assms(3) by simp
  fix x assume x: "x \<in> set [0..<unat N]" "x \<noteq> unat k"
  then have u: "unat (of_nat x :: 64 word) = x" by (simp add: unat_of_nat_block)
  then have "(of_nat x :: 64 word) \<noteq> k" using x(2) by auto
  then show "(\<not> isBlockInUse (word_of_nat x) N img') = (\<not> isBlockInUse (word_of_nat x) N img)"
    using same [of "of_nat x"] x(1) u by simp
qed

lemma isBlockInUse_only_changes:
  assumes "only_changes img img' p len" and "HDR (unat N) \<le> p" and "unat j < unat N"
  shows "isBlockInUse j N img' = isBlockInUse j N img"
proof -
  have "48 + unat j div 8 < HDR (unat N)" using assms(3) by (rule bitmap_byte_below_HDR)
  then have "fstream_read_at img' (48 + unat j div 8) 1 = fstream_read_at img (48 + unat j div 8) 1"
    using assms(2) by (intro only_changes_read [OF assms(1)]) simp
  then show ?thesis by (simp add: isBlockInUse_def)
qed

section \<open>The file entry: append\<close>

lemma unat_ucast_32_64: "unat (ucast (w :: 32 word) :: 64 word) = unat w"
proof -
  have "unat w < 2 ^ 64"
    using unsigned_less [of w, where 'a = nat] by simp
  then show ?thesis
    by (simp add: unsigned_ucast_eq take_bit_nat_eq_self)
qed

lemma payload_only_changes:
  assumes "only_changes img img' p len"
    and "unat (m_offset c) + FILE_BLOCK_META + unat (m_bytesWritten c) \<le> p
         \<or> p + len \<le> unat (m_offset c) + FILE_BLOCK_META"
  shows "payload img' c = payload img c"
  unfolding payload_def using assms(2) by (intro only_changes_read [OF assms(1)]) auto

lemma payload_other_block:
  assumes "image_ok N img" and "wf_block N b" and "wf_block N c" and "m_index c \<noteq> m_index b"
    and "only_changes img img' (unat (m_offset b)) FILE_BLOCK_SIZE"
    and "unat (m_bytesWritten c) \<le> payloadCapacity"
  shows "payload img' c = payload img c"
proof -
  have "unat (m_offset c) + FILE_BLOCK_SIZE \<le> unat (m_offset b)
       \<or> unat (m_offset b) + FILE_BLOCK_SIZE \<le> unat (m_offset c)"
    using regions_disjoint [OF assms(1,3,2,4)] .
  then show ?thesis
    using assms(6)
    by (intro payload_only_changes [OF assms(5)])
       (auto simp add: FILE_BLOCK_SIZE_def FILE_BLOCK_META_def payloadCapacity_def)
qed

lemma payload_below_blocks:
  assumes "image_ok N img" and "wf_block N c" and "only_changes img img' p len"
    and "p + len \<le> HDR (unat N)"
  shows "payload img' c = payload img c"
  using wf_pos(3) [OF assms(1,2)] assms(4)
  by (intro payload_only_changes [OF assms(3)]) simp

lemma entry_inv_blocks:
  assumes "entry_inv N (bs, img)" and "b \<in> set bs"
  shows "wf_block N b" and "coherent img b" and "isBlockInUse (m_index b) N img"
    and "unat (m_bytesWritten b) \<le> payloadCapacity"
proof -
  have c: "chain_inv N (bs, img)" and u: "list_all (\<lambda>b. isBlockInUse (m_index b) N img) bs"
    and f: "list_all (\<lambda>b. unat (m_bytesWritten b) = payloadCapacity) (butlast bs)"
    and l: "unat (m_bytesWritten (last bs)) \<le> payloadCapacity"
    using assms(1) by (simp_all add: entry_inv_def)
  show "wf_block N b" "coherent img b"
    using c assms(2) by (simp_all add: chain_inv_def list_all_iff)
  show "isBlockInUse (m_index b) N img" using u assms(2) by (simp add: list_all_iff)
  have ne: "bs \<noteq> []" using assms(2) by auto
  then have "bs = butlast bs @ [last bs]" by simp
  then have "b \<in> set (butlast bs) \<or> b = last bs"
    using assms(2) by (metis Un_iff empty_iff empty_set insert_iff list.simps(15) set_append)
  then show "unat (m_bytesWritten b) \<le> payloadCapacity"
    using f l by (auto simp add: list_all_iff)
qed

lemma chainData_snoc: "chainData img (bs @ [b]) = chainData img bs @ payload img b"
  by (simp add: chainData_def)

lemma chainData_cong:
  "(\<And>b. b \<in> set bs \<Longrightarrow> payload img' b = payload img b) \<Longrightarrow> chainData img' bs = chainData img bs"
  unfolding chainData_def by (rule arg_cong [of _ _ concat]) (rule map_cong [OF refl])

lemma entry_inv_append_write:
  assumes inv: "entry_inv N (bs, img)"
    and fit: "unat (m_bytesWritten (last bs)) + length buf \<le> payloadCapacity"
  shows "\<exists>b' img'. writeLast (ucast (m_bytesWritten (last bs))) buf (bs, img) = (butlast bs @ [b'], img')
     \<and> entry_inv N (butlast bs @ [b'], img')
     \<and> m_index b' = m_index (last bs)
     \<and> unat (m_bytesWritten b') = unat (m_bytesWritten (last bs)) + length buf
     \<and> chainData img' (butlast bs @ [b']) = chainData img bs @ buf
     \<and> freeBlocks img' N = freeBlocks img N"
proof -
  define L where "L = last bs"
  define e :: "64 word" where "e = ucast (m_bytesWritten L)"
  have c: "chain_inv N (bs, img)" using inv by (simp add: entry_inv_def)
  have ok: "image_ok N img" using c by (simp add: chain_inv_def)
  have ne: "bs \<noteq> []" using c by (auto simp add: chain_inv_def)
  have bs: "bs = butlast bs @ [L]" using ne by (simp add: L_def)
  have Lin: "L \<in> set bs" using ne by (simp add: L_def)
  note Lf = entry_inv_blocks [OF inv Lin]
  have ue: "unat e = unat (m_bytesWritten L)"
    unfolding e_def by (rule unat_ucast_32_64)
  have fit': "unat e + length buf \<le> payloadCapacity" using fit by (simp add: ue L_def)
  obtain b' img' where w: "writeLast e buf (bs, img) = (butlast bs @ [b'], img')"
    and c': "chain_inv N (butlast bs @ [b'], img')"
    and ix: "m_index b' = m_index L" and off: "m_offset b' = m_offset L"
    and bw: "m_bytesWritten b' = m_bytesWritten L + of_nat (length buf)"
    and oc: "only_changes img img' (unat (m_offset L)) FILE_BLOCK_SIZE"
    and p1: "fstream_read_at img' (unat (m_offset L) + FILE_BLOCK_META + unat e) (length buf) = buf"
    and p2: "fstream_read_at img' (unat (m_offset L) + FILE_BLOCK_META) (unat e)
         = fstream_read_at img (unat (m_offset L) + FILE_BLOCK_META) (unat e)"
    using writeLast_result [OF c fit'] unfolding L_def by blast
  have ubw: "unat (m_bytesWritten b') = unat (m_bytesWritten L) + length buf"
  proof -
    have "unat (m_bytesWritten L) + length buf < 2 ^ 32"
      using fit by (simp add: L_def payloadCapacity_def FILE_BLOCK_SIZE_def FILE_BLOCK_META_def)
    then show ?thesis
      by (simp add: bw unat_word_ariths unat_of_nat)
  qed
  have hdr: "HDR (unat N) \<le> unat (m_offset L)" using wf_pos(3) [OF ok Lf(1)] .
  have bits: "isBlockInUse j N img' = isBlockInUse j N img" if "unat j < unat N" for j
    using oc hdr that by (rule isBlockInUse_only_changes)
  have pb': "payload img' b' = payload img L @ buf"
    using read_split [of img' "unat (m_offset L) + FILE_BLOCK_META" "unat e" "length buf"] p1 p2
    by (simp add: payload_def off ubw ue add.assoc)
  have others: "payload img' x = payload img x \<and> isBlockInUse (m_index x) N img'"
    if "x \<in> set (butlast bs)" for x
  proof -
    have x: "x \<in> set bs" using that by (rule in_set_butlastD)
    note xf = entry_inv_blocks [OF inv x]
    have "distinct (map m_index (butlast bs @ [L]))"
      using c bs by (simp add: chain_inv_def)
    then have "m_index L \<notin> m_index ` set (butlast bs)" by simp
    then have "m_index x \<noteq> m_index L" using that by (metis imageI)
    then have "payload img' x = payload img x"
      using payload_other_block [OF ok Lf(1) xf(1) _ oc xf(4)] by simp
    moreover have "unat (m_index x) < unat N" using xf(1) by (simp add: wf_block_def)
    ultimately show ?thesis using bits xf(3) by simp
  qed
  have data: "chainData img' (butlast bs @ [b']) = chainData img bs @ buf"
  proof -
    have "chainData img' (butlast bs) = chainData img (butlast bs)"
      using others by (intro chainData_cong) simp
    moreover have "chainData img bs = chainData img (butlast bs) @ payload img L"
      using arg_cong [OF bs, of "chainData img"] by (simp add: chainData_snoc)
    ultimately show ?thesis by (simp add: chainData_snoc pb')
  qed
  have full: "list_all (\<lambda>b. unat (m_bytesWritten b) = payloadCapacity) (butlast bs)"
    using inv by (simp add: entry_inv_def)
  have useL: "isBlockInUse (m_index b') N img'"
    using bits [of "m_index L"] Lf(1,3) by (simp add: ix wf_block_def)
  have inv': "entry_inv N (butlast bs @ [b'], img')"
    using c' others useL full fit by (simp add: entry_inv_def list_all_iff ubw L_def)
  have "freeBlocks img' N = freeBlocks img N"
    using bits by (rule freeBlocks_same)
  then show ?thesis
    using w inv' ix ubw data unfolding e_def L_def by blast
qed

lemma payload_empty: "m_bytesWritten b = 0 \<Longrightarrow> payload img b = []"
  by (simp add: payload_def fstream_read_at_def)

lemma entry_inv_allocate_link:
  assumes inv: "entry_inv N (bs, img)"
    and full: "unat (m_bytesWritten (last bs)) = payloadCapacity"
    and free: "0 < freeBlocks img N"
  shows "\<exists>nb img2 b' img3. allocateBlock img N = Inr (nb, img2)
     \<and> linkNew nb (bs, img2) = (butlast bs @ [b', nb], img3)
     \<and> entry_inv N (butlast bs @ [b', nb], img3)
     \<and> m_index b' = m_index (last bs)
     \<and> m_bytesWritten nb = 0
     \<and> chainData img3 (butlast bs @ [b', nb]) = chainData img bs
     \<and> freeBlocks img3 N + 1 = freeBlocks img N"
proof -
  define L where "L = last bs"
  have c: "chain_inv N (bs, img)" using inv by (simp add: entry_inv_def)
  have ok: "image_ok N img" using c by (simp add: chain_inv_def)
  have ne: "bs \<noteq> []" using c by (auto simp add: chain_inv_def)
  have bs: "bs = butlast bs @ [L]" using ne by (simp add: L_def)
  have Lin: "L \<in> set bs" using ne by (simp add: L_def)
  note Lf = entry_inv_blocks [OF inv Lin]
  obtain k where ff: "firstFree img N = Some k"
    using firstFree_exists [OF free] by blast
  note k = firstFree_Some [OF ff]
  have knot: "m_index x \<noteq> k" if "x \<in> set bs" for x
    using entry_inv_blocks(3) [OF inv that] k(2) by auto
  then have kno: "k \<notin> set (map m_index bs)" by auto
  obtain nb img2 where nb: "newBlock img N k = Inr (nb, img2)"
    by (simp add: newBlock_Inr)
  have al: "allocateBlock img N = Inr (nb, img2)"
    by (simp add: allocateBlock_def ff nb)
  note p = newBlock_props [OF ok k(1) nb]
  obtain img1 where oc1: "only_changes img img1 (unat (m_offset nb)) FILE_BLOCK_META"
    and oc2: "only_changes img1 img2 (48 + unat k div 8) 1"
    using p(6) by blast
  have oc1': "only_changes img img1 (unat (m_offset nb)) FILE_BLOCK_SIZE"
    using oc1 by (rule only_changes_widen) (simp_all add: FILE_BLOCK_SIZE_def FILE_BLOCK_META_def)
  have ok1: "image_ok N img1" using ok by (simp add: image_ok_only_changes [OF oc1])
  have ok2: "image_ok N img2" by (rule p(8))
  have byte: "48 + unat k div 8 + 1 \<le> HDR (unat N)"
    using bitmap_byte_below_HDR [OF k(1)] by simp
  obtain b' img3 where w: "linkNew nb (bs, img2) = (butlast bs @ [b', nb], img3)"
    and c': "chain_inv N (butlast bs @ [b', nb], img3)"
    and ix: "m_index b' = m_index L" and off: "m_offset b' = m_offset L"
    and bw: "m_bytesWritten b' = m_bytesWritten L"
    and oc3: "only_changes img2 img3 (unat (m_offset L) + 4) 8"
    using linkNew_result [OF c k(1) kno nb] unfolding L_def by blast
  have oc3': "only_changes img2 img3 (unat (m_offset L)) FILE_BLOCK_SIZE"
    using oc3 by (rule only_changes_widen) (simp_all add: FILE_BLOCK_SIZE_def)
  have hdrL: "HDR (unat N) \<le> unat (m_offset L)" using wf_pos(3) [OF ok Lf(1)] .
  have bits3: "isBlockInUse j N img3 = isBlockInUse j N img2" if "unat j < unat N" for j
    using oc3 _ that by (rule isBlockInUse_only_changes) (use hdrL in simp)
  have pay: "payload img3 x = payload img x" if "x \<in> set bs" for x
  proof -
    note xf = entry_inv_blocks [OF inv that]
    have 1: "payload img1 x = payload img x"
      using knot [OF that]
      by (intro payload_other_block [OF ok p(1) xf(1) _ oc1' xf(4)]) (simp add: p(2))
    have 2: "payload img2 x = payload img1 x"
      using byte by (intro payload_below_blocks [OF ok1 xf(1) oc2]) simp
    have 3: "payload img3 x = payload img2 x"
    proof (cases "m_index x = m_index L")
      case True
      have "wf_block N x" "wf_block N L" using xf(1) Lf(1) by simp_all
      then have "m_offset x = m_offset L" using True by (simp add: wf_block_def)
      then show ?thesis
        by (intro payload_only_changes [OF oc3]) (simp add: FILE_BLOCK_META_def)
    next
      case False
      then show ?thesis
        by (intro payload_other_block [OF ok2 Lf(1) xf(1) _ oc3' xf(4)])
    qed
    show ?thesis using 1 2 3 by simp
  qed
  have payb': "payload img3 b' = payload img L"
    using pay [OF Lin] by (simp add: payload_def off bw)
  have data: "chainData img3 (butlast bs @ [b', nb]) = chainData img bs"
  proof -
    have "chainData img3 (butlast bs) = chainData img (butlast bs)"
      by (rule chainData_cong) (rule pay, erule in_set_butlastD)
    moreover have "chainData img bs = chainData img (butlast bs) @ payload img L"
      using arg_cong [OF bs, of "chainData img"] by (simp add: chainData_snoc)
    moreover have "chainData img3 (butlast bs @ [b', nb])
        = chainData img3 (butlast bs) @ payload img3 b' @ payload img3 nb"
      by (simp add: chainData_def)
    ultimately show ?thesis by (simp add: payb' payload_empty [OF p(4)])
  qed
  have used: "isBlockInUse (m_index x) N img3" if "x \<in> set bs" for x
  proof -
    note xf = entry_inv_blocks [OF inv that]
    have lt: "unat (m_index x) < unat N" using xf(1) by (simp add: wf_block_def)
    have "isBlockInUse (m_index x) N img2 = isBlockInUse (m_index x) N img"
      using knot [OF that] lt by (intro p(10))
    then show ?thesis using bits3 [OF lt] xf(3) by simp
  qed
  have usednb: "isBlockInUse (m_index nb) N img3"
    using bits3 [OF k(1)] p(9) by (simp add: p(2))
  have usedb': "isBlockInUse (m_index b') N img3"
    using used [OF Lin] by (simp add: ix)
  have fullbl: "list_all (\<lambda>b. unat (m_bytesWritten b) = payloadCapacity) (butlast bs)"
    using inv by (simp add: entry_inv_def)
  have inv': "entry_inv N (butlast bs @ [b', nb], img3)"
    using c' used usednb usedb' fullbl full
    by (auto simp add: entry_inv_def list_all_iff butlast_append bw p(4) L_def
        dest: in_set_butlastD)
  have f2: "freeBlocks img2 N + 1 = freeBlocks img N"
    using k(1) k(2) p(9) p(10) by (rule freeBlocks_take)
  have "freeBlocks img3 N = freeBlocks img2 N"
    using bits3 by (rule freeBlocks_same)
  then have f3: "freeBlocks img3 N + 1 = freeBlocks img N" using f2 by simp
  show ?thesis
    using al w inv' ix p(4) data f3 unfolding L_def by blast
qed

lemma payloadCapacity_500: "payloadCapacity = 500"
  by (simp add: payloadCapacity_def FILE_BLOCK_SIZE_def FILE_BLOCK_META_def)

lemma hd_index_replace_last:
  "bs \<noteq> [] \<Longrightarrow> m_index b = m_index (last bs) \<Longrightarrow>
   m_index (hd (butlast bs @ b # rest)) = m_index (hd bs)"
  by (cases bs) (auto split: if_splits)

lemma appendLoop_appends:
  assumes "entry_inv N st"
    and "(unat (m_bytesWritten (last (fst st))) + length buf) div payloadCapacity
         \<le> freeBlocks (snd st) N"
  shows "\<exists>bs' img'. appendLoop N st buf = Inr (bs', img') \<and> entry_inv N (bs', img')
     \<and> chainData img' bs' = chainData (snd st) (fst st) @ buf
     \<and> m_index (hd bs') = m_index (hd (fst st))"
  using assms
proof (induction N st buf rule: appendLoop.induct)
  case (1 N st buf)
  obtain bs img where st: "st = (bs, img)" by (cases st)
  have fs: "fst st = bs" "snd st = img" by (simp_all add: st)
  have inv: "entry_inv N (bs, img)" using "1.prems"(1) by (simp add: st)
  have ne: "bs \<noteq> []" using inv by (auto simp add: entry_inv_def chain_inv_def)
  show ?case
  proof (cases "buf = []")
    case True
    then show ?thesis
      using inv by (subst appendLoop.simps) (simp add: st)
  next
    case False
    define room where "room = payloadCapacity - unat (m_bytesWritten (last (fst st)))"
    define st1 where "st1 = writeLast (ucast (m_bytesWritten (last (fst st)))) (take room buf) st"
    define w where "w = unat (m_bytesWritten (last bs))"
    define chunk where "chunk = take room buf"
    have room: "room = payloadCapacity - w" by (simp add: room_def w_def st)
    have wP: "w \<le> payloadCapacity" using inv by (simp add: entry_inv_def w_def)
    have fit: "unat (m_bytesWritten (last bs)) + length chunk \<le> payloadCapacity"
      using wP by (simp add: chunk_def room w_def)
    obtain b1 img1 where
      w1: "writeLast (ucast (m_bytesWritten (last bs))) chunk (bs, img) = (butlast bs @ [b1], img1)"
      and inv1: "entry_inv N (butlast bs @ [b1], img1)"
      and ix1: "m_index b1 = m_index (last bs)"
      and bw1: "unat (m_bytesWritten b1) = w + length chunk"
      and data1: "chainData img1 (butlast bs @ [b1]) = chainData img bs @ chunk"
      and free1: "freeBlocks img1 N = freeBlocks img N"
      using entry_inv_append_write [OF inv fit] unfolding w_def by blast
    have st1: "st1 = (butlast bs @ [b1], img1)"
      using w1 by (simp add: st1_def st chunk_def)
    have unf: "appendLoop N st buf =
        (if unat (m_bytesWritten (last (fst st1))) < payloadCapacity then Inr st1
         else (case allocateBlock (snd st1) N of
                 Inl e \<Rightarrow> Inl e
               | Inr (nb, img2) \<Rightarrow> appendLoop N (linkNew nb (fst st1, img2)) (drop room buf)))"
      unfolding st1_def room_def
      by (subst appendLoop.simps) (simp add: Let_def False)
    show ?thesis
    proof (cases "unat (m_bytesWritten (last (fst st1))) < payloadCapacity")
      case True
      then have "w + length chunk < payloadCapacity" by (simp add: st1 bw1)
      then have "length buf < room" by (simp add: chunk_def room)
      then have "chunk = buf" by (simp add: chunk_def)
      moreover have "appendLoop N st buf = Inr (butlast bs @ [b1], img1)"
        using True by (simp add: unf st1)
      ultimately show ?thesis
        using inv1 data1 ix1 ne
        by (simp add: fs hd_index_replace_last)
    next
      case nl: False
      then have full: "unat (m_bytesWritten (last (butlast bs @ [b1]))) = payloadCapacity"
        using fit by (simp add: st1 bw1 w_def)
      then have lc: "w + length chunk = payloadCapacity" by (simp add: bw1)
      then have lr: "length chunk = room" by (simp add: room)
      then have rb: "room \<le> length buf" by (simp add: chunk_def)
      have "payloadCapacity \<le> w + length buf" using lc rb lr by simp
      then have "1 \<le> (w + length buf) div payloadCapacity"
        by (simp add: payloadCapacity_500)
      then have free: "0 < freeBlocks img1 N"
        using "1.prems"(2) by (simp add: st w_def free1)
      obtain nb img2 b' img3 where al: "allocateBlock img1 N = Inr (nb, img2)"
        and ln: "linkNew nb (butlast bs @ [b1], img2) = (butlast (butlast bs @ [b1]) @ [b', nb], img3)"
        and inv3: "entry_inv N (butlast (butlast bs @ [b1]) @ [b', nb], img3)"
        and ix3: "m_index b' = m_index (last (butlast bs @ [b1]))"
        and nb0: "m_bytesWritten nb = 0"
        and data3: "chainData img3 (butlast (butlast bs @ [b1]) @ [b', nb])
                    = chainData img1 (butlast bs @ [b1])"
        and free3: "freeBlocks img3 N + 1 = freeBlocks img1 N"
        using entry_inv_allocate_link [OF inv1 full free] by blast
      have bound: "(unat (m_bytesWritten (last (fst (butlast bs @ [b', nb], img3))))
                     + length (drop room buf)) div payloadCapacity
                   \<le> freeBlocks (snd (butlast bs @ [b', nb], img3)) N"
      proof -
        have "w + length buf = payloadCapacity + (length buf - room)"
          using lc lr rb by simp
        then have "(w + length buf) div payloadCapacity = 1 + (length buf - room) div payloadCapacity"
          by (simp add: payloadCapacity_500)
        then show ?thesis
          using "1.prems"(2) free3 by (simp add: st w_def free1 nb0)
      qed
      have ih: "\<exists>bs' img'. appendLoop N (butlast bs @ [b', nb], img3) (drop room buf) = Inr (bs', img')
          \<and> entry_inv N (bs', img')
          \<and> chainData img' bs' = chainData img3 (butlast bs @ [b', nb]) @ drop room buf
          \<and> m_index (hd bs') = m_index (hd (butlast bs @ [b', nb]))"
        using "1.IH" [OF False room_def st1_def nl, of "(nb, img2)" nb img2]
          al ln inv3 bound
        by (simp add: st1)
      have "take room buf @ drop room buf = buf" by simp
      then have "chainData img bs @ chunk @ drop room buf = chainData img bs @ buf"
        by (simp add: chunk_def)
      moreover have "m_index (hd (butlast bs @ [b', nb])) = m_index (hd bs)"
        using ne ix3 ix1 by (intro hd_index_replace_last) simp_all
      moreover have "appendLoop N st buf = appendLoop N (butlast bs @ [b', nb], img3) (drop room buf)"
        using nl al ln by (simp add: unf st1)
      ultimately show ?thesis
        using ih data3 data1
        by (auto simp add: fs)
    qed
  qed
qed

section \<open>The file entry: open and read\<close>

lemma length_read_inside: "q + n \<le> length img \<Longrightarrow> length (fstream_read_at img q n) = n"
  by (simp add: fstream_read_at_def)

lemma FileBlock_open_coherent:
  assumes ok: "image_ok N img" and wf: "wf_block N b" and coh: "coherent img b"
  shows "FileBlock_open img N (m_index b) = Some (reopened b)"
proof -
  have o: "getOffsetOfFileBlock (m_index b) N = m_offset b" and n: "m_totalBlocks b = N"
    using wf by (simp_all add: wf_block_def)
  have p: "unat (m_offset b) + FILE_BLOCK_SIZE \<le> length img" using wf_pos(2) [OF ok wf] .
  have l4: "length (fstream_read_at img (unat (m_offset b)) 4) = 4"
    using p by (intro length_read_inside) (simp add: FILE_BLOCK_SIZE_def)
  have l8: "length (fstream_read_at img (unat (m_offset b) + 4) 8) = 8"
    using p by (intro length_read_inside) (simp add: FILE_BLOCK_SIZE_def)
  have h: "headerBytesWritten img (unat (m_offset b)) = m_bytesWritten b"
    "headerNext img (unat (m_offset b)) = m_next b"
    using coh by (simp_all add: coherent_def)
  show ?thesis
    using n by (simp add: FileBlock_open_def o l4 l8 h reopened_def)
qed

lemma walkChain_chain:
  assumes "image_ok N img"
  shows "list_all (\<lambda>b. wf_block N b \<and> coherent img b) bs \<Longrightarrow> distinct (map m_index bs) \<Longrightarrow>
     linked bs \<Longrightarrow> length bs \<le> hops \<Longrightarrow>
     walkChain hops img N (m_index (hd bs)) = Inr (map reopened bs)"
proof (induction bs arbitrary: hops rule: linked.induct)
  case 1
  then show ?case by simp
next
  case (2 b)
  then obtain h where h: "hops = Suc h" by (cases hops) auto
  have "FileBlock_open img N (m_index b) = Some (reopened b)"
    using 2 by (intro FileBlock_open_coherent [OF assms]) simp_all
  then show ?case using 2 by (simp add: h reopened_def)
next
  case (3 b c bs)
  then obtain h where h: "hops = Suc h" and lh: "length (c # bs) \<le> h" by (cases hops) auto
  have op: "FileBlock_open img N (m_index b) = Some (reopened b)"
    using 3 by (intro FileBlock_open_coherent [OF assms]) simp_all
  have nx: "m_next b = m_index c" "m_index c \<noteq> m_index b"
    using "3.prems" by auto
  have "walkChain h img N (m_index (hd (c # bs))) = Inr (map reopened (c # bs))"
    using "3.prems" lh by (intro "3.IH") simp_all
  then show ?case using nx by (simp add: h op reopened_def)
qed

lemma length_le_blocks:
  assumes "distinct (map m_index bs)" and "list_all (\<lambda>b. unat (m_index b) < unat N) bs"
  shows "length bs \<le> unat (N :: 64 word)"
proof -
  have "distinct (map unat (map m_index bs))"
    by (rule iffD2 [OF distinct_map]) (simp add: assms(1) inj_on_def word_unat_eq_iff)
  then have "card (set (map unat (map m_index bs))) = length bs"
    using distinct_card by fastforce
  moreover have "set (map unat (map m_index bs)) \<subseteq> {..<unat N}"
    using assms(2) by (auto simp add: list_all_iff)
  then have "card (set (map unat (map m_index bs))) \<le> card {..<unat N}"
    by (intro card_mono) simp_all
  ultimately show ?thesis by simp
qed

lemma payload_length:
  assumes "image_ok N img" and "wf_block N b" and "unat (m_bytesWritten b) \<le> payloadCapacity"
  shows "length (payload img b) = unat (m_bytesWritten b)"
  unfolding payload_def
  using wf_pos(2) [OF assms(1,2)] assms(3)
  by (intro length_read_inside)
     (simp add: payloadCapacity_def FILE_BLOCK_SIZE_def FILE_BLOCK_META_def)

lemma FileBlock_read_payload:
  assumes ok: "image_ok N img" and wf: "wf_block N b"
    and le: "unat (m_bytesWritten b) \<le> payloadCapacity"
  shows "FileBlock_read (setExtraOffset (reopened b) (of_nat 0)) img
           (replicate (unat (m_bytesWritten b)) 0) (unat (m_bytesWritten b))
         = (setExtraOffset (reopened b) 0, img, payload img b, unat (m_bytesWritten b))"
proof -
  have p: "unat (m_offset b) + FILE_BLOCK_SIZE \<le> length img" using wf_pos(2) [OF ok wf] .
  have "length img < 2 ^ 63" using ok by (simp add: image_ok_def)
  then have "unat (m_offset b) + FILE_BLOCK_META < 2 ^ 64"
    using p by (simp add: FILE_BLOCK_SIZE_def FILE_BLOCK_META_def)
  then have u: "unat (m_offset b + of_nat FILE_BLOCK_META) = unat (m_offset b) + FILE_BLOCK_META"
    by (simp add: unat_word_ariths FILE_BLOCK_META_def)
  have l: "length (payload img b) = unat (m_bytesWritten b)"
    using ok wf le by (rule payload_length)
  show ?thesis
    using l by (simp add: FileBlock_read_def setExtraOffset_def reopened_def Let_def u payload_def)
qed

lemma readBlocks_zero: "readBlocks bs img extraOffset 0 = []"
  by (cases bs) simp_all

lemma readBlocks_chain:
  assumes ok: "image_ok N img"
  shows "list_all (wf_block N) bs \<Longrightarrow>
     list_all (\<lambda>b. unat (m_bytesWritten b) = payloadCapacity) (butlast bs) \<Longrightarrow>
     bs \<noteq> [] \<Longrightarrow> unat (m_bytesWritten (last bs)) \<le> payloadCapacity \<Longrightarrow>
     readBlocks (map reopened bs) img 0 (sum_list (map (\<lambda>b. unat (m_bytesWritten b)) bs))
       = chainData img bs"
proof (induction bs)
  case Nil
  then show ?case by simp
next
  case (Cons b bs)
  define n where "n = unat (m_bytesWritten b)"
  define rest where "rest = sum_list (map (\<lambda>b. unat (m_bytesWritten b)) bs)"
  have wf: "wf_block N b" using Cons.prems(1) by simp
  have nP: "n \<le> payloadCapacity" "bs \<noteq> [] \<Longrightarrow> n = payloadCapacity"
    using Cons.prems(2,4) by (auto simp add: n_def split: if_splits)
  have tail: "readBlocks (map reopened bs) img 0 rest = chainData img bs"
  proof (cases "bs = []")
    case True
    then show ?thesis by (simp add: chainData_def)
  next
    case False
    then show ?thesis
      unfolding rest_def using Cons.prems by (intro Cons.IH) simp_all
  qed
  have m: "min (n + rest) payloadCapacity = n"
  proof (cases "bs = []")
    case True
    then show ?thesis using nP(1) by (simp add: rest_def)
  next
    case False
    then show ?thesis using nP(2) by simp
  qed
  have rd: "FileBlock_read (setExtraOffset (reopened b) (of_nat 0)) img (replicate n 0) n
         = (setExtraOffset (reopened b) 0, img, payload img b, n)"
    unfolding n_def using ok wf nP(1) [unfolded n_def] by (rule FileBlock_read_payload)
  have pl: "length (payload img b) = n"
    unfolding n_def using ok wf nP(1) [unfolded n_def] by (rule payload_length)
  show ?case
  proof (cases "n + rest = 0")
    case True
    then have "payload img b = []" using pl by simp
    moreover have "chainData img bs = []" using tail True by (simp add: readBlocks_zero)
    ultimately show ?thesis
      using True by (simp add: chainData_def n_def rest_def)
  next
    case False
    have "readBlocks (map reopened (b # bs)) img 0 (n + rest)
          = payload img b @ readBlocks (map reopened bs) img 0 rest"
      using False m rd pl by (auto simp add: Let_def)
    then show ?thesis
      using tail by (simp add: chainData_def n_def rest_def)
  qed
qed

section \<open>Write, then read\<close>

lemma allocate_first_block:
  assumes ok: "image_ok N img" and free: "0 < freeBlocks img N"
  shows "\<exists>nb img1. allocateBlock img N = Inr (nb, img1) \<and> entry_inv N ([nb], img1)
     \<and> m_bytesWritten nb = 0 \<and> freeBlocks img1 N + 1 = freeBlocks img N"
proof -
  obtain k where ff: "firstFree img N = Some k"
    using firstFree_exists [OF free] by blast
  note k = firstFree_Some [OF ff]
  obtain nb img1 where nb: "newBlock img N k = Inr (nb, img1)"
    by (simp add: newBlock_Inr)
  have al: "allocateBlock img N = Inr (nb, img1)"
    by (simp add: allocateBlock_def ff nb)
  note p = newBlock_props [OF ok k(1) nb]
  have "entry_inv N ([nb], img1)"
    using p(1,2,3,4,7,8,9) by (simp add: entry_inv_def chain_inv_def)
  moreover have "freeBlocks img1 N + 1 = freeBlocks img N"
    using k(1) k(2) p(9) p(10) by (rule freeBlocks_take)
  ultimately show ?thesis using al p(4) by blast
qed

lemma chainData_length:
  assumes "entry_inv N (bs, img)"
  shows "length (chainData img bs) = sum_list (map (\<lambda>b. unat (m_bytesWritten b)) bs)"
proof -
  have ok: "image_ok N img" using assms by (simp add: entry_inv_def chain_inv_def)
  have "length (payload img b) = unat (m_bytesWritten b)" if "b \<in> set bs" for b
    using entry_inv_blocks(1,4) [OF assms that] by (intro payload_length [OF ok])
  then have m: "map (\<lambda>b. length (payload img b)) bs = map (\<lambda>b. unat (m_bytesWritten b)) bs"
    by (intro map_cong [OF refl])
  have "length (chainData img bs) = sum_list (map (\<lambda>b. length (payload img b)) bs)"
    by (simp add: chainData_def length_concat comp_def)
  then show ?thesis by (simp only: m)
qed

lemma sum_reopened:
  "sum_list (map ((\<lambda>b. unat (m_bytesWritten b)) \<circ> reopened) bs)
   = sum_list (map (\<lambda>b. unat (m_bytesWritten b)) bs)"
  by (simp add: comp_def reopened_def)

text \<open>
  C1. On an image that holds all its blocks and has enough free blocks, one more than
  \<open>|s| div P\<close> (which \<open>N \<ge> \<lceil>|s| / P\<rceil> + 2\<close> gives on an image with at most one block in
  use): writing \<open>s\<close> to a fresh entry, flushing, opening an entry on the same start block
  and reading \<open>fileSize\<close> bytes succeeds, the file size is \<open>|s|\<close> and the bytes read
  are \<open>s\<close>.
\<close>

theorem write_then_read_roundtrip:
  assumes ok: "image_ok blocks img"
    and free: "length testData div payloadCapacity + 1 \<le> freeBlocks img blocks"
  shows "testBigWriteFollowedByRead img blocks testData = Inr (length testData, testData)"
proof -
  have "0 < freeBlocks img blocks" using free by simp
  then obtain nb img1 where al: "allocateBlock img blocks = Inr (nb, img1)"
    and inv1: "entry_inv blocks ([nb], img1)" and nb0: "m_bytesWritten nb = 0"
    and free1: "freeBlocks img1 blocks + 1 = freeBlocks img blocks"
    using allocate_first_block [OF ok] by blast
  define entry where "entry = \<lparr>m_blocks = blocks, m_fileSize = 0, m_fileBlocks = [nb],
      m_startVolumeBlock = m_index nb, m_openDisposition = CreateNew, m_pos = 0\<rparr>"
  have cr: "TeaSafeFile_create img blocks = Inr (entry, img1)"
    by (simp add: TeaSafeFile_create_def al entry_def)
  have "(unat (m_bytesWritten (last (fst ([nb], img1)))) + length testData) div payloadCapacity
        \<le> freeBlocks (snd ([nb], img1)) blocks"
    using free free1 by (simp add: nb0)
  then obtain bs img2 where lp: "appendLoop blocks ([nb], img1) testData = Inr (bs, img2)"
    and inv2: "entry_inv blocks (bs, img2)"
    and data: "chainData img2 bs = chainData img1 [nb] @ testData"
    and hd: "m_index (hd bs) = m_index nb"
    using appendLoop_appends [OF inv1, of testData] by auto
  have d: "chainData img2 bs = testData"
    using data by (simp add: chainData_def payload_empty [OF nb0])
  define entry1 where "entry1 = entry\<lparr>m_fileBlocks := bs, m_fileSize := length testData,
      m_pos := length testData\<rparr>"
  have wr: "TeaSafeFile_write entry img1 testData = Inr (entry1, img2, length testData)"
    by (simp add: TeaSafeFile_write_def entry_def entry1_def lp)
  have c2: "chain_inv blocks (bs, img2)" using inv2 by (simp add: entry_inv_def)
  then have ok2: "image_ok blocks img2"
    and all2: "list_all (\<lambda>b. wf_block blocks b \<and> coherent img2 b) bs"
    and dist2: "distinct (map m_index bs)" and lk2: "linked bs"
    by (simp_all add: chain_inv_def)
  have ne: "bs \<noteq> []" using lk2 by (rule linked_nonempty)
  have "list_all (\<lambda>b. unat (m_index b) < unat blocks) bs"
    using all2 by (simp add: list_all_iff wf_block_def)
  then have len: "length bs \<le> unat blocks" using dist2 by (intro length_le_blocks)
  have wk: "walkChain (unat blocks) img2 blocks (m_index nb) = Inr (map reopened bs)"
    using walkChain_chain [OF ok2 all2 dist2 lk2 len] by (simp add: hd)
  have size: "sum_list (map (\<lambda>b. unat (m_bytesWritten b)) bs) = length testData"
    using chainData_length [OF inv2] by (simp add: d)
  define entry2 where "entry2 = \<lparr>m_blocks = blocks, m_fileSize = length testData,
      m_fileBlocks = map reopened bs, m_startVolumeBlock = m_index nb,
      m_openDisposition = Read, m_pos = 0\<rparr>"
  have op: "TeaSafeFile_open (TeaSafeFile_flush img2) blocks (m_startVolumeBlock entry1) Read
            = Inr entry2"
    by (simp add: TeaSafeFile_open_def TeaSafeFile_flush_def entry1_def entry_def wk
        sum_reopened size entry2_def)
  have rb: "readBlocks (map reopened bs) img2 0 (length testData) = testData"
  proof -
    have "list_all (wf_block blocks) bs" using all2 by (simp add: list_all_iff)
    moreover have "list_all (\<lambda>b. unat (m_bytesWritten b) = payloadCapacity) (butlast bs)"
      "unat (m_bytesWritten (last bs)) \<le> payloadCapacity"
      using inv2 by (simp_all add: entry_inv_def)
    ultimately have "readBlocks (map reopened bs) img2 0
        (sum_list (map (\<lambda>b. unat (m_bytesWritten b)) bs)) = chainData img2 bs"
      using ne by (intro readBlocks_chain [OF ok2])
    then show ?thesis by (simp add: size d)
  qed
  have rd: "snd (TeaSafeFile_read entry2 (TeaSafeFile_flush img2) (m_fileSize entry2)) = testData"
  proof (cases "testData = []")
    case True
    then show ?thesis
      by (simp add: TeaSafeFile_read_def TeaSafeFile_flush_def entry2_def Let_def readBlocks_zero)
  next
    case False
    then show ?thesis
      using rb by (simp add: TeaSafeFile_read_def TeaSafeFile_flush_def entry2_def Let_def)
  qed
  show ?thesis
    using rd by (simp add: testBigWriteFollowedByRead_def cr wr op entry2_def)
qed

theorem write_then_read_roundtrip_witness:
  "testBigWriteFollowedByRead root_image 4 (replicate 600 7 @ [1, 2, 3])
     = Inr (603, replicate 600 7 @ [1, 2, 3])"
proof -
  have ok: "image_ok 4 root_image"
    by (simp add: image_ok_def root_image_def HDR_def FILE_BLOCK_SIZE_def)
  have "freeBlocks root_image 4 = 3"
    by (simp add: freeBlocks_def isBlockInUse_def fstream_read_at_def root_image_def upt_rec)
  then have free: "length (replicate 600 7 @ [1, 2, 3 :: byte]) div payloadCapacity + 1
      \<le> freeBlocks root_image 4"
    by (simp add: payloadCapacity_500)
  show ?thesis
    using write_then_read_roundtrip [OF ok free] by simp
qed

end
